theory Spec2Isabelle
  imports Complex_Main "HOL-Library.Word" "HOL-Library.Monad_Syntax"
begin

section \<open>C library functions used by the option parsers\<close>

text \<open>
  A C string is modelled as a \<open>string\<close> without its terminating NUL; a pointer into it is
  the suffix that starts there. Reading the character under a pointer that stands at the
  end of the string yields the terminator.
\<close>

definition NUL :: char where
  "NUL = CHR 0x00"

definition peek :: "string \<Rightarrow> char" where
  "peek s = (case s of [] \<Rightarrow> NUL | c # _ \<Rightarrow> c)"

text \<open>
  \<open>str[i]\<close>: a character of the string, the terminator at \<open>i = length str\<close>, and no
  value (a read past the end of the array) beyond it.
\<close>

definition str_at :: "string \<Rightarrow> nat \<Rightarrow> char option" where
  "str_at s i = (if i < length s then Some (s ! i) else if i = length s then Some NUL else None)"

definition isspace :: "char \<Rightarrow> bool" where
  "isspace c \<longleftrightarrow> c = CHR '' '' \<or> c = CHR 0x09 \<or> c = CHR 0x0A \<or> c = CHR 0x0B
     \<or> c = CHR 0x0C \<or> c = CHR 0x0D"

definition isdigit :: "char \<Rightarrow> bool" where
  "isdigit c \<longleftrightarrow> 48 \<le> (of_char c :: nat) \<and> (of_char c :: nat) \<le> 57"

definition digit_val :: "char \<Rightarrow> nat" where
  "digit_val c = of_char c - 48"

text \<open>The longest run of decimal digits, accumulated into a number; returns the rest.\<close>

fun strtol_digits :: "int \<Rightarrow> string \<Rightarrow> int \<times> string" where
  "strtol_digits acc [] = (acc, [])"
| "strtol_digits acc (c # cs) =
     (if isdigit c then strtol_digits (10 * acc + int (digit_val c)) cs else (acc, c # cs))"

definition LONG_MAX :: int where
  "LONG_MAX = 2 ^ 63 - 1"

definition LONG_MIN :: int where
  "LONG_MIN = - (2 ^ 63)"

text \<open>
  \<open>strtol (str, &ptr, 10)\<close> on an LP64 platform: white space, an optional sign, decimal
  digits. Without a digit nothing is converted: the value is 0 and \<open>ptr = str\<close>. A value
  out of range is clamped to \<open>LONG_MIN\<close> or \<open>LONG_MAX\<close>.
\<close>

definition strtol :: "string \<Rightarrow> int \<times> string" where
  "strtol str =
     (let s1 = dropWhile isspace str;
          neg = (peek s1 = CHR ''-'');
          s2 = (if peek s1 = CHR ''-'' \<or> peek s1 = CHR ''+'' then tl s1 else s1)
      in if isdigit (peek s2)
         then (let (v, rest) = strtol_digits 0 s2;
                   r = (if neg then - v else v)
               in (max LONG_MIN (min LONG_MAX r), rest))
         else (0, str))"

text \<open>The assignment of a \<open>long\<close> to an \<open>int\<close> field keeps the low 32 bits.\<close>

definition long_to_int :: "int \<Rightarrow> int" where
  "long_to_int v = sint (word_of_int v :: 32 word)"

text \<open>
  \<open>strtof (str, &ptr)\<close> for decimal notation: white space, an optional sign, digits with
  an optional fraction, an optional exponent. The value is the exact real number; the
  rounding to a \<open>float\<close>, hexadecimal notation, \<open>inf\<close> and \<open>nan\<close> are outside the model
  (the model converts nothing there).
\<close>

fun strtof_frac :: "real \<Rightarrow> real \<Rightarrow> string \<Rightarrow> real \<times> string" where
  "strtof_frac acc sc [] = (acc, [])"
| "strtof_frac acc sc (c # cs) =
     (if isdigit c then strtof_frac (acc + sc * real (digit_val c)) (sc / 10) cs
      else (acc, c # cs))"

definition strtof_exp :: "real \<Rightarrow> string \<Rightarrow> real \<times> string" where
  "strtof_exp m s =
     (if peek s = CHR ''e'' \<or> peek s = CHR ''E''
      then (let s1 = tl s;
                neg = (peek s1 = CHR ''-'');
                s2 = (if peek s1 = CHR ''-'' \<or> peek s1 = CHR ''+'' then tl s1 else s1)
            in if isdigit (peek s2)
               then (let (e, rest) = strtol_digits 0 s2
                     in (if neg then m / 10 ^ nat e else m * 10 ^ nat e, rest))
               else (m, s))
      else (m, s))"

definition strtof :: "string \<Rightarrow> real \<times> string" where
  "strtof str =
     (let s1 = dropWhile isspace str;
          neg = (peek s1 = CHR ''-'');
          s2 = (if peek s1 = CHR ''-'' \<or> peek s1 = CHR ''+'' then tl s1 else s1);
          (ip, s3) = strtol_digits 0 s2;
          has_int = (s3 \<noteq> s2);
          dot = (peek s3 = CHR ''.'');
          (fp, s4) = (if dot then strtof_frac 0 (1 / 10) (tl s3) else (0, s3));
          has_frac = (dot \<and> s4 \<noteq> tl s3)
      in if has_int \<or> has_frac
         then (let (v, rest) = strtof_exp (real_of_int ip + fp) s4
               in (if neg then - v else v, rest))
         else (0, str))"

text \<open>
  \<open>strncmp (s, t, n)\<close>: 0 when the first \<open>n\<close> characters agree (or both strings end
  before), otherwise the difference of the first two characters that differ.
\<close>

fun strncmp :: "string \<Rightarrow> string \<Rightarrow> nat \<Rightarrow> int" where
  "strncmp s t 0 = 0"
| "strncmp [] [] (Suc n) = 0"
| "strncmp [] (b # bs) (Suc n) = - int (of_char b)"
| "strncmp (a # as) [] (Suc n) = int (of_char a)"
| "strncmp (a # as) (b # bs) (Suc n) =
     (if a = b then strncmp as bs n else int (of_char a) - int (of_char b))"

section \<open>Configuration data\<close>

record geometry =
  geom_width :: int
  geom_height :: int
  geom_anchor :: real

datatype crop_mode = CROP_NONE | CROP_FILL

datatype pixel_format =
  FORMAT_RGB | FORMAT_RGBA | FORMAT_ARGB | FORMAT_BGR | FORMAT_BGRA | FORMAT_ABGR

record raw_image_format =
  fmt_format :: pixel_format
  fmt_width :: int
  fmt_height :: int

record arguments =
  output_file :: "string option"
  input_file :: "string option"
  fast_gamma :: bool
  raw_image :: bool
  blur_size :: nat
  blur_passes :: nat
  arg_crop_mode :: crop_mode
  geom :: geometry
  raw_fmt :: raw_image_format

fun pixel_format_size :: "pixel_format \<Rightarrow> nat" where
  "pixel_format_size FORMAT_RGB = 3"
| "pixel_format_size FORMAT_RGBA = 4"
| "pixel_format_size FORMAT_ARGB = 4"
| "pixel_format_size FORMAT_BGR = 3"
| "pixel_format_size FORMAT_BGRA = 4"
| "pixel_format_size FORMAT_ABGR = 4"

fun pixel_format_rgb_offset :: "pixel_format \<Rightarrow> nat list" where
  "pixel_format_rgb_offset FORMAT_RGB = [0, 1, 2]"
| "pixel_format_rgb_offset FORMAT_RGBA = [0, 1, 2]"
| "pixel_format_rgb_offset FORMAT_ARGB = [1, 2, 3]"
| "pixel_format_rgb_offset FORMAT_BGR = [2, 1, 0]"
| "pixel_format_rgb_offset FORMAT_BGRA = [2, 1, 0]"
| "pixel_format_rgb_offset FORMAT_ABGR = [3, 2, 1]"

section \<open>Parsing the geometry and the raw format\<close>

text \<open>
  \<open>parse_geometry\<close> writes the fields of \<open>geom\<close> as it goes and returns 0 or 1; the
  model returns the result together with the geometry as it is left.
\<close>

definition parse_geometry :: "string \<Rightarrow> geometry \<Rightarrow> int \<times> geometry" where
  "parse_geometry str0 geom0 =
     (let (v, ptr) = strtol str0;
          geom1 = geom0\<lparr>geom_width := long_to_int v\<rparr>
      in if ptr = str0 \<or> peek ptr \<noteq> CHR ''x'' then (0, geom1)
         else
          (let str1 = tl ptr;
               (v1, ptr1) = strtol str1;
               geom2 = geom1\<lparr>geom_height := long_to_int v1\<rparr>
           in if ptr1 = str1 then (0, geom2)
              else if peek ptr1 \<noteq> CHR ''@'' then (1, geom2)
              else
               (let str2 = tl ptr1;
                    (a, ptr2) = strtof str2;
                    geom3 = geom2\<lparr>geom_anchor := a\<rparr>
                in (if ptr2 = str2 then 0 else 1, geom3))))"

text \<open>
  \<open>parse_raw_format\<close>: \<open>rgb\<close> and \<open>bgr\<close> hold the results of \<open>strncmp\<close> converted to
  \<open>bool\<close>, so each is true when the strings differ. \<open>str[3]\<close> is read only when
  \<open>alpha_first\<close> is false; \<open>None\<close> is a read past the end of the argument.
\<close>

definition parse_raw_format ::
  "string \<Rightarrow> raw_image_format \<Rightarrow> (int \<times> raw_image_format) option" where
  "parse_raw_format str0 fmt0 =
     (let (v, ptr) = strtol str0;
          fmt1 = fmt0\<lparr>fmt_width := long_to_int v\<rparr>
      in if ptr = str0 \<or> peek ptr \<noteq> CHR ''x'' then Some (0, fmt1)
         else
          (let str1 = tl ptr;
               (v1, ptr1) = strtol str1;
               fmt2 = fmt1\<lparr>fmt_height := long_to_int v1\<rparr>
           in if ptr1 = str1 \<or> peek ptr1 \<noteq> CHR '':'' then Some (0, fmt2)
              else
               (let str2 = tl ptr1;
                    alpha_first = (peek str2 = CHR ''a'');
                    str3 = (if alpha_first then tl str2 else str2);
                    rgb = (strncmp str3 ''rgb'' 3 \<noteq> 0);
                    bgr = (strncmp str3 ''bgr'' 3 \<noteq> 0)
                in if \<not> rgb \<and> \<not> bgr then Some (0, fmt2)
                   else
                    (case (if alpha_first then Some False
                           else map_option (\<lambda>c. c = CHR ''a'') (str_at str3 3)) of
                       None \<Rightarrow> None
                     | Some alpha_last \<Rightarrow>
                         Some (1, fmt2\<lparr>fmt_format :=
                           (if alpha_first then (if rgb then FORMAT_ARGB else FORMAT_ABGR)
                            else if alpha_last then (if rgb then FORMAT_RGBA else FORMAT_BGRA)
                            else (if rgb then FORMAT_RGB else FORMAT_BGR))\<rparr>)))))"

text \<open>
  The cases of \<open>parse_opt\<close>: \<open>argp_error\<close> prints the message and ends the program
  (\<open>Inl\<close>); otherwise the arguments are returned as updated.
\<close>

definition parse_opt_z :: "string \<Rightarrow> arguments \<Rightarrow> string + arguments" where
  "parse_opt_z arg args =
     (let (v, end_ptr) = strtol arg;
          size = long_to_int v
      in if end_ptr = arg \<or> size < 1 then Inl ''invalid size, must be at least 1.''
         else if size mod 2 = 0 then Inl ''invalid size, must be odd''
         else Inr (args\<lparr>blur_size := nat size\<rparr>))"

definition parse_opt_r :: "string \<Rightarrow> arguments \<Rightarrow> string + arguments" where
  "parse_opt_r arg args =
     (let args1 = args\<lparr>arg_crop_mode := CROP_FILL\<rparr>;
          (ok, g) = parse_geometry arg (geom args1)
      in if ok = 0 then Inl ''invalid geometry, format WxH@A.''
         else Inr (args1\<lparr>geom := g\<rparr>))"

definition parse_opt_raw :: "string \<Rightarrow> arguments \<Rightarrow> (string + arguments) option" where
  "parse_opt_raw arg args =
     (case parse_raw_format arg (raw_fmt args) of
        None \<Rightarrow> None
      | Some (ok, f) \<Rightarrow>
          Some (if ok = 0 then Inl ''invalid raw image format, WxH:FORMAT.''
                else Inr (args\<lparr>raw_fmt := f, raw_image := True\<rparr>)))"

text \<open>The geometry that \<open>main\<close> sets before the options are parsed.\<close>

definition default_geom :: geometry where
  "default_geom = \<lparr>geom_width = - 1, geom_height = - 1, geom_anchor = 1 / 2\<rparr>"

text \<open>The arguments as \<open>main\<close> sets them before the options are parsed. The file names
  and the raw format are not set there; the model gives them fixed values.\<close>

definition default_arguments :: arguments where
  "default_arguments =
     \<lparr>output_file = None, input_file = None, fast_gamma = False, raw_image = False,
      blur_size = 31, blur_passes = 4, arg_crop_mode = CROP_NONE, geom = default_geom,
      raw_fmt = \<lparr>fmt_format = FORMAT_RGB, fmt_width = 0, fmt_height = 0\<rparr>\<rparr>"

section \<open>Numbers\<close>

text \<open>
  A \<open>float\<close> or \<open>double\<close> is modelled as the real number it stands for. In the gamma
  transfer, the scaling and the moving average the arithmetic is taken as exact; in the
  crop computation, where the rounding decides the result, every operation rounds as the
  machine does (see below). The conversion of a floating value to an integer type
  truncates towards zero.
\<close>

definition c_trunc :: "real \<Rightarrow> int" where
  "c_trunc r = (if 0 \<le> r then \<lfloor>r\<rfloor> else \<lceil>r\<rceil>)"

text \<open>
  IEEE 754 binary formats with \<open>p\<close> significand bits and the exponent range
  \<open>emin .. emax\<close>. The finite numbers of the format are the multiples of
  \<open>2 ^ (e - p + 1)\<close> in the binade \<open>2 ^ e \<le> |x| < 2 ^ (e + 1)\<close>, and the multiples of
  \<open>2 ^ (emin - p + 1)\<close> below \<open>2 ^ emin\<close>. \<open>fp_round\<close> rounds a real number to the
  nearest of them, a tie to the one with the even significand; \<open>None\<close> is a result that
  is no finite number (overflow). Every operation computes the exact result and rounds it
  (\<open>FLT_EVAL_METHOD\<close> 0, as on x86-64 and AArch64).
\<close>

definition pow2 :: "int \<Rightarrow> real" where
  "pow2 e = (if 0 \<le> e then 2 ^ nat e else 1 / 2 ^ nat (- e))"

definition round_even :: "real \<Rightarrow> int" where
  "round_even r =
     (let f = \<lfloor>r\<rfloor>; d = r - real_of_int f
      in if d < 1 / 2 then f else if 1 / 2 < d then f + 1 else if even f then f else f + 1)"

definition fp_round :: "nat \<Rightarrow> int \<Rightarrow> int \<Rightarrow> real \<Rightarrow> real option" where
  "fp_round p emin emax x =
     (if \<bar>x\<bar> < pow2 emin
      then Some (real_of_int (round_even (x / pow2 (emin - int p + 1)))
                 * pow2 (emin - int p + 1))
      else (case find (\<lambda>e. pow2 e \<le> \<bar>x\<bar> \<and> \<bar>x\<bar> < pow2 (e + 1)) [emin..emax] of
              None \<Rightarrow> None
            | Some e \<Rightarrow>
                (let r = real_of_int (round_even (x / pow2 (e - int p + 1)))
                         * pow2 (e - int p + 1)
                 in if \<bar>r\<bar> < pow2 (emax + 1) then Some r else None)))"

definition float32 :: "real \<Rightarrow> real option" where
  "float32 = fp_round 24 (- 126) 127"

definition float64 :: "real \<Rightarrow> real option" where
  "float64 = fp_round 53 (- 1022) 1023"

text \<open>
  The operations of the crop computation: the conversion of an \<open>int\<close> to \<open>float\<close>, the
  division and the product of two floats (a division by zero gives no finite number), and
  \<open>(int) (x + 0.5)\<close> for a float \<open>x\<close>: \<open>x\<close> is promoted to \<open>double\<close>, the sum is rounded
  to \<open>double\<close> and truncated; the conversion is defined only when the result fits an
  \<open>int\<close>.
\<close>

definition f32_of_int :: "int \<Rightarrow> real option" where
  "f32_of_int k = float32 (real_of_int k)"

definition f32_div :: "real \<Rightarrow> real \<Rightarrow> real option" where
  "f32_div a b = (if b = 0 then None else float32 (a / b))"

definition f32_mul :: "real \<Rightarrow> real \<Rightarrow> real option" where
  "f32_mul a b = float32 (a * b)"

definition int_of_double :: "real \<Rightarrow> int option" where
  "int_of_double r =
     (let t = c_trunc r in if - (2 ^ 31) \<le> t \<and> t < 2 ^ 31 then Some t else None)"

definition plus_half_to_int :: "real \<Rightarrow> int option" where
  "plus_half_to_int x = do { s \<leftarrow> float64 (x + 1 / 2); int_of_double s }"

text \<open>The division of \<open>int\<close> by \<open>int\<close> truncates towards zero.\<close>

definition c_div :: "int \<Rightarrow> int \<Rightarrow> int" where
  "c_div a b = (if (a < 0) = (b < 0) then \<bar>a\<bar> div \<bar>b\<bar> else - (\<bar>a\<bar> div \<bar>b\<bar>))"

definition MIN_macro :: "int \<Rightarrow> int \<Rightarrow> int" where
  "MIN_macro a b = (if a < b then a else b)"

definition MAX_macro :: "int \<Rightarrow> int \<Rightarrow> int" where
  "MAX_macro a b = (if a > b then a else b)"

definition IDX :: "nat \<Rightarrow> nat \<Rightarrow> nat \<Rightarrow> nat \<Rightarrow> nat" where
  "IDX w x y s = s * (w * y + x)"

section \<open>Storage and loops\<close>

text \<open>
  The floats behind a pointer are a list; \<open>None\<close> is the null pointer. A read or a write
  at an offset outside the storage has no defined result (\<open>None\<close>), and a loop stops with
  \<open>None\<close> as soon as one of its steps does.
\<close>

definition rd :: "'a list \<Rightarrow> int \<Rightarrow> 'a option" where
  "rd xs i = (if 0 \<le> i \<and> i < int (length xs) then Some (xs ! nat i) else None)"

definition wr :: "'a list \<Rightarrow> int \<Rightarrow> 'a \<Rightarrow> 'a list option" where
  "wr xs i v = (if 0 \<le> i \<and> i < int (length xs) then Some (xs[nat i := v]) else None)"

primrec for_each :: "'i list \<Rightarrow> ('i \<Rightarrow> 's \<Rightarrow> 's option) \<Rightarrow> 's \<Rightarrow> 's option" where
  "for_each [] body s = Some s"
| "for_each (i # is) body s =
     (case body i s of None \<Rightarrow> None | Some s' \<Rightarrow> for_each is body s')"

section \<open>Images\<close>

record img =
  width :: int
  height :: int
  stride :: int
  owner :: bool
  alloc_size :: nat
  pixels :: "real list option"

text \<open>
  \<open>img_set_size\<close>: \<open>size\<close> is the byte count \<open>sizeof(float) * 3 * width * height\<close>, and
  \<open>malloc (sizeof(float) * alloc_size * 3)\<close> gives room for \<open>3 * alloc_size\<close> floats.
  The dimensions are taken to be small enough that no product overflows. Fresh storage is
  indeterminate in C; the model fills it with zeros, and no statement below is about a
  cell that was never written.
\<close>

definition img_set_size :: "img \<Rightarrow> int \<Rightarrow> int \<Rightarrow> img" where
  "img_set_size im w h =
     (let size = nat (4 * 3 * w * h);
          im1 = im\<lparr>width := w, height := h, stride := 3 * w\<rparr>
      in if pixels im1 = None \<or> size > alloc_size im1
         then im1\<lparr>alloc_size := size, pixels := Some (replicate (3 * size) 0)\<rparr>
         else im1)"

definition img_init :: "img \<Rightarrow> int \<Rightarrow> int \<Rightarrow> img" where
  "img_init im w h = img_set_size (im\<lparr>pixels := None\<rparr>) w h"

text \<open>An image structure before \<open>img_init\<close>; its fields are not read.\<close>

definition img_blank :: img where
  "img_blank = \<lparr>width = 0, height = 0, stride = 0, owner = False, alloc_size = 0,
     pixels = None\<rparr>"

section \<open>Gamma transfer\<close>

definition GAMMA :: real where
  "GAMMA = 22 / 10"

definition init_gamma_decode_lut :: "real list" where
  "init_gamma_decode_lut = map (\<lambda>i. (real i * (1 / 255)) powr GAMMA) [0..<256]"

definition gamma_decode_fast :: "8 word \<Rightarrow> real" where
  "gamma_decode_fast v = (let x = real (unat v) * (1 / 255) in x * x)"

text \<open>
  The conversion to \<open>uint8_t\<close> is defined only when the truncated value fits; \<open>powf\<close>
  and \<open>sqrtf\<close> of a negative number give no number.
\<close>

definition float_to_uint8 :: "real \<Rightarrow> 8 word option" where
  "float_to_uint8 r =
     (let t = c_trunc r in if 0 \<le> t \<and> t \<le> 255 then Some (word_of_int t) else None)"

definition gamma_encode :: "real \<Rightarrow> 8 word option" where
  "gamma_encode v =
     (if v < 0 then None else float_to_uint8 (255 * v powr (1 / GAMMA) + 1 / 2))"

definition gamma_encode_fast :: "real \<Rightarrow> 8 word option" where
  "gamma_encode_fast v = (if v < 0 then None else float_to_uint8 (255 * sqrt v + 1 / 2))"

text \<open>
  \<open>img_gamma_decode_bitmap\<close>: the table \<open>gamma_decode_lut\<close> is passed as \<open>lut\<close>. The
  counter \<open>i\<close> runs over the multiples of \<open>pixel_size\<close> below \<open>img_size\<close>.
\<close>

definition img_gamma_decode_bitmap ::
  "real list \<Rightarrow> img \<Rightarrow> 8 word list \<Rightarrow> raw_image_format \<Rightarrow> bool \<Rightarrow> img option" where
  "img_gamma_decode_bitmap lut im0 bitmap fmt fast =
     (let im = img_init im0 (fmt_width fmt) (fmt_height fmt);
          pixel_size = pixel_format_size (fmt_format fmt);
          img_size = int pixel_size * fmt_width fmt * fmt_height fmt;
          offset = pixel_format_rgb_offset (fmt_format fmt)
      in case pixels im of
           None \<Rightarrow> None
         | Some px \<Rightarrow>
             map_option (\<lambda>px'. im\<lparr>pixels := Some px'\<rparr>)
               (for_each (map (\<lambda>k. int (k * pixel_size)) [0..<nat img_size div pixel_size])
                  (\<lambda>i. for_each [0..<3]
                     (\<lambda>c px.
                        case rd bitmap (i + int (offset ! c)) of
                          None \<Rightarrow> None
                        | Some b \<Rightarrow>
                            if fast then wr px (i + int c) (gamma_decode_fast b)
                            else (case rd lut (int (unat b)) of
                                    None \<Rightarrow> None
                                  | Some v \<Rightarrow> wr px (i + int c) v)))
                  px))"

section \<open>Transposition, cropping and scaling\<close>

text \<open>
  \<open>img_transpose\<close>: the loop bounds are the width and the height converted to \<open>size_t\<close>;
  a negative one would send the loops across the whole address space.
\<close>

definition img_transpose :: "img \<Rightarrow> img \<Rightarrow> img option" where
  "img_transpose src dst0 =
     (let dst = img_set_size dst0 (height src) (width src);
          src_w = nat (width src);
          src_h = nat (height src)
      in if width src < 0 \<or> height src < 0 then None
         else
          (case (pixels src, pixels dst) of
             (Some sp, Some dp) \<Rightarrow>
               map_option (\<lambda>dp'. dst\<lparr>pixels := Some dp'\<rparr>)
                 (for_each [0..<src_h]
                    (\<lambda>y. for_each [0..<src_w]
                       (\<lambda>x. for_each [0..<3]
                          (\<lambda>c dp.
                             case rd sp (int (IDX src_w x y 3 + c)) of
                               None \<Rightarrow> None
                             | Some v \<Rightarrow> wr dp (int (IDX src_h y x 3 + c)) v)))
                    dp)
           | _ \<Rightarrow> None))"

text \<open>
  \<open>img_crop\<close>: a view that starts at the pixel (x, y) of the source and keeps the
  source's stride. The caller passes \<open>x\<close> and \<open>y\<close> inside the source.
\<close>

definition img_crop :: "img \<Rightarrow> int \<Rightarrow> int \<Rightarrow> int \<Rightarrow> int \<Rightarrow> img" where
  "img_crop src w h x y =
     \<lparr>width = w, height = h, stride = stride src, owner = False, alloc_size = 0,
      pixels = map_option (drop (nat (y * stride src + 3 * x))) (pixels src)\<rparr>"

text \<open>The source index of \<open>img_interp_nearest\<close> for the destination index \<open>i\<close>.\<close>

definition nearest_src :: "int \<Rightarrow> int \<Rightarrow> real \<Rightarrow> int" where
  "nearest_src i src_dim dst_rcp = c_trunc (real_of_int (i * src_dim) * dst_rcp + 1 / 2)"

definition img_interp_nearest :: "img \<Rightarrow> int \<Rightarrow> int \<Rightarrow> img option" where
  "img_interp_nearest src w h =
     (let dst_width_rcp = 1 / real_of_int w;
          dst_height_rcp = 1 / real_of_int h;
          dst = img_init img_blank w h
      in case (pixels src, pixels dst) of
           (Some sp, Some dp) \<Rightarrow>
             map_option (\<lambda>dp'. dst\<lparr>pixels := Some dp'\<rparr>)
               (for_each [0..<nat (height dst)]
                  (\<lambda>y. let y_src = nearest_src (int y) (height src) dst_height_rcp
                       in for_each [0..<nat (width dst)]
                            (\<lambda>x. let x_src = nearest_src (int x) (width src) dst_width_rcp
                                 in for_each [0..<3]
                                      (\<lambda>c dp.
                                         case rd sp (stride src * y_src + 3 * x_src + int c) of
                                           None \<Rightarrow> None
                                         | Some v \<Rightarrow>
                                             wr dp (stride dst * int y + 3 * int x + int c) v)))
                  dp)
         | _ \<Rightarrow> None)"

text \<open>
  The crop rectangle \<open>(crop_w, crop_h, crop_x, crop_y)\<close> that \<open>img_resize_fill\<close> (and
  the same lines of \<open>main\<close>) compute from the image size and the geometry, in
  \<open>float\<close> arithmetic: \<open>(float) geom->width / geom->height\<close> converts both operands
  and divides, \<open>img->width / crop_aspect_ratio\<close> and \<open>img->height * crop_aspect_ratio\<close>
  convert the \<open>int\<close> operand, and \<open>geom->anchor\<close> is a \<open>float\<close>. \<open>None\<close>: some
  intermediate result is no finite number, or does not fit an \<open>int\<close>.
\<close>

definition fill_crop :: "int \<Rightarrow> int \<Rightarrow> geometry \<Rightarrow> (int \<times> int \<times> int \<times> int) option" where
  "fill_crop img_w img_h g =
     do {
       gw \<leftarrow> f32_of_int (geom_width g);
       gh \<leftarrow> f32_of_int (geom_height g);
       crop_aspect_ratio \<leftarrow> f32_div gw gh;
       iw \<leftarrow> f32_of_int img_w;
       ih \<leftarrow> f32_of_int img_h;
       img_aspect_ratio \<leftarrow> f32_div iw ih;
       if crop_aspect_ratio > img_aspect_ratio
       then do {
         t \<leftarrow> f32_div iw crop_aspect_ratio;
         crop_h \<leftarrow> plus_half_to_int t;
         d \<leftarrow> f32_of_int (img_h - crop_h);
         u \<leftarrow> f32_mul (geom_anchor g) d;
         crop_y \<leftarrow> plus_half_to_int u;
         Some (img_w, crop_h, 0, crop_y)
       }
       else do {
         t \<leftarrow> f32_mul ih crop_aspect_ratio;
         crop_w \<leftarrow> plus_half_to_int t;
         d \<leftarrow> f32_of_int (img_w - crop_w);
         u \<leftarrow> f32_mul (geom_anchor g) d;
         crop_x \<leftarrow> plus_half_to_int u;
         Some (crop_w, img_h, crop_x, 0)
       }
     }"

definition img_resize_fill :: "img \<Rightarrow> geometry \<Rightarrow> img option" where
  "img_resize_fill im g =
     (case fill_crop (width im) (height im) g of
        None \<Rightarrow> None
      | Some (crop_w, crop_h, crop_x, crop_y) \<Rightarrow>
          img_interp_nearest (img_crop im crop_w crop_h crop_x crop_y)
            (geom_width g) (geom_height g))"

section \<open>The recursive moving average\<close>

text \<open>
  One row of \<open>img_mov_avg_h\<close>. \<open>src_row x c\<close> is the read of \<open>src_row[x][c]\<close>, and
  \<open>dst_row[x][c]\<close> is the float at \<open>doff + 3 * x + c\<close> of the destination's storage.
\<close>

definition mov_avg_row ::
  "(int \<Rightarrow> nat \<Rightarrow> real option) \<Rightarrow> int \<Rightarrow> int \<Rightarrow> int \<Rightarrow> real list \<Rightarrow> real list option" where
  "mov_avg_row src_row doff w n dp0 =
     (let a = 1 / real_of_int n;
          p = c_div (n - 1) 2;
          q = p + 1
      in case for_each [0..<3]
                (\<lambda>c dp. case src_row 0 c of
                           None \<Rightarrow> None
                         | Some v \<Rightarrow> wr dp (doff + int c) (v * real_of_int q * a))
                dp0 of
           None \<Rightarrow> None
         | Some dp1 \<Rightarrow>
            (case for_each (map int [1..<nat q])
                    (\<lambda>x. for_each [0..<3]
                       (\<lambda>c dp. case (rd dp (doff + int c), src_row x c) of
                                  (Some d, Some v) \<Rightarrow> wr dp (doff + int c) (d + a * v)
                                | _ \<Rightarrow> None))
                    dp1 of
               None \<Rightarrow> None
             | Some dp2 \<Rightarrow>
                 for_each (map int [1..<nat w])
                   (\<lambda>x. for_each [0..<3]
                      (\<lambda>c dp. case (rd dp (doff + 3 * (x - 1) + int c),
                                      src_row (MIN_macro (x + p) (w - 1)) c,
                                      src_row (MAX_macro (x - q) 0) c) of
                                 (Some d, Some u, Some v) \<Rightarrow>
                                   wr dp (doff + 3 * x + int c) (d + a * u - a * v)
                               | _ \<Rightarrow> None))
                   dp2))"

definition img_mov_avg_h :: "img \<Rightarrow> img \<Rightarrow> int \<Rightarrow> img option" where
  "img_mov_avg_h src dst0 n =
     (let dst = img_set_size dst0 (width src) (height src);
          w = width src;
          h = height src
      in case (pixels src, pixels dst) of
           (Some sp, Some dp) \<Rightarrow>
             map_option (\<lambda>dp'. dst\<lparr>pixels := Some dp'\<rparr>)
               (for_each [0..<nat h]
                  (\<lambda>y. mov_avg_row (\<lambda>x c. rd sp (stride src * int y + 3 * x + int c))
                          (stride dst * int y) w n)
                  dp)
         | _ \<Rightarrow> None)"

text \<open>
  The brute-force box convolution with the edges clamped, as the specification words it:
  with \<open>a = 1 / n\<close> and \<open>p = (n - 1) / 2\<close>, the average of
  \<open>f (clamp (x - p)), ..., f (clamp (x + p))\<close>, the indices clamped to \<open>0 .. W - 1\<close>.
\<close>

definition clamp :: "int \<Rightarrow> int \<Rightarrow> int \<Rightarrow> int" where
  "clamp i lo hi = max lo (min hi i)"

definition box_clamped :: "(int \<Rightarrow> real) \<Rightarrow> int \<Rightarrow> int \<Rightarrow> int \<Rightarrow> real" where
  "box_clamped f W n x =
     (let a = 1 / real_of_int n; p = (n - 1) div 2
      in a * sum_list (map (\<lambda>k. f (clamp k 0 (W - 1))) [x - p..x + p]))"

section \<open>Reading pixels, and the invariants of the loops\<close>

text \<open>
  \<open>pixel_at im x y c\<close> is the read of channel \<open>c\<close> of the pixel (x, y) as every routine
  that honours the stride does it: \<open>im->pixels[im->stride * y + 3 * x + c]\<close>.
\<close>

definition pixel_at :: "img \<Rightarrow> int \<Rightarrow> int \<Rightarrow> nat \<Rightarrow> real option" where
  "pixel_at im x y c =
     (case pixels im of None \<Rightarrow> None | Some p \<Rightarrow> rd p (stride im * y + 3 * x + int c))"

text \<open>
  The valid state that \<open>img_set_size\<close> asks of its argument: no storage, or storage of
  the size that \<open>img_set_size\<close> allocates for \<open>alloc_size\<close>.
\<close>

definition img_ok :: "img \<Rightarrow> bool" where
  "img_ok im = (case pixels im of None \<Rightarrow> True | Some p \<Rightarrow> length p = 3 * alloc_size im)"

text \<open>
  The loops of \<open>img_transpose\<close> at the iteration (y, x, c): the iterations before it are
  those with a smaller \<open>y\<close>, or the same \<open>y\<close> and a smaller \<open>x\<close>, or the same \<open>y\<close> and
  \<open>x\<close> and a smaller \<open>c\<close>, and each of them has left its float in the destination.
\<close>

definition tr_done :: "nat \<Rightarrow> nat \<Rightarrow> nat \<Rightarrow> nat \<Rightarrow> nat \<Rightarrow> nat \<Rightarrow> bool" where
  "tr_done y x c y' x' c' \<longleftrightarrow> y' < y \<or> (y' = y \<and> (x' < x \<or> (x' = x \<and> c' < c)))"

definition tr_inv ::
  "real list \<Rightarrow> nat \<Rightarrow> nat \<Rightarrow> nat \<Rightarrow> nat \<Rightarrow> nat \<Rightarrow> nat \<Rightarrow> real list \<Rightarrow> bool" where
  "tr_inv sp w h L y x c dp \<longleftrightarrow>
     length dp = L
     \<and> (\<forall>y' x' c'. y' < h \<and> x' < w \<and> c' < 3 \<and> tr_done y x c y' x' c'
          \<longrightarrow> dp ! (IDX h y' x' 3 + c') = sp ! (IDX w x' y' 3 + c'))"

section \<open>The option parsers on concrete arguments\<close>

lemma parse_opt_z_validates:
  "parse_opt_z ''0'' default_arguments = Inl ''invalid size, must be at least 1.''"
  "parse_opt_z ''-5'' default_arguments = Inl ''invalid size, must be at least 1.''"
  "parse_opt_z ''4'' default_arguments = Inl ''invalid size, must be odd''"
  "parse_opt_z ''5'' default_arguments = Inr (default_arguments\<lparr>blur_size := 5\<rparr>)"
  by code_simp+

lemma parse_geometry_well_formed:
  "parse_geometry ''40x40@0.5'' default_geom
     = (1, \<lparr>geom_width = 40, geom_height = 40, geom_anchor = 1 / 2\<rparr>)"
  "parse_geometry ''40x40'' default_geom
     = (1, \<lparr>geom_width = 40, geom_height = 40, geom_anchor = 1 / 2\<rparr>)"
  "fst (parse_geometry ''40'' default_geom) = 0"
  "fst (parse_geometry ''40x'' default_geom) = 0"
  "fst (parse_geometry ''40x40@'' default_geom) = 0"
  by code_simp+

text \<open>
  C7. \<open>parse_raw_format\<close> is claimed to accept exactly the layouts rgb, bgr, rgba, bgra,
  argb and abgr and to assign the tag that matches the layout. On the code, the descriptor
  \<open>2x1:argb\<close> is given the tag ABGR, \<open>2x1:rgba\<close> the tag BGRA and \<open>2x1:rgb\<close> the tag
  BGR, and the descriptor \<open>2x1:xyz\<close>, whose layout is none of the six, is accepted (with
  the tag RGB): the results of \<open>strncmp\<close> are used as if non-zero meant equal.
\<close>

theorem parse_raw_format_inverted:
  "parse_raw_format ''2x1:argb'' (raw_fmt default_arguments)
     = Some (1, \<lparr>fmt_format = FORMAT_ABGR, fmt_width = 2, fmt_height = 1\<rparr>)
   \<and> parse_raw_format ''2x1:rgba'' (raw_fmt default_arguments)
     = Some (1, \<lparr>fmt_format = FORMAT_BGRA, fmt_width = 2, fmt_height = 1\<rparr>)
   \<and> parse_raw_format ''2x1:rgb'' (raw_fmt default_arguments)
     = Some (1, \<lparr>fmt_format = FORMAT_BGR, fmt_width = 2, fmt_height = 1\<rparr>)
   \<and> parse_raw_format ''2x1:xyz'' (raw_fmt default_arguments)
     = Some (1, \<lparr>fmt_format = FORMAT_RGB, fmt_width = 2, fmt_height = 1\<rparr>)
   \<and> parse_opt_raw ''2x1:xyz'' default_arguments
     = Some (Inr (default_arguments
         \<lparr>raw_fmt := \<lparr>fmt_format = FORMAT_RGB, fmt_width = 2, fmt_height = 1\<rparr>,
          raw_image := True\<rparr>))"
  by code_simp

text \<open>
  C8. Every accepted geometry string is claimed to have a width and a height above 0 and
  an anchor in [0, 1]. On the code, the string \<open>0x-3@7\<close> is accepted by
  \<open>parse_geometry\<close> and by the option's case of \<open>parse_opt\<close>, with width 0, height -3
  and anchor 7: only the syntax is checked.
\<close>

theorem parse_geometry_accepts_out_of_range:
  "parse_geometry ''0x-3@7'' default_geom
     = (1, \<lparr>geom_width = 0, geom_height = - 3, geom_anchor = 7\<rparr>)
   \<and> parse_opt_r ''0x-3@7'' default_arguments
     = Inr (default_arguments
         \<lparr>arg_crop_mode := CROP_FILL,
          geom := \<lparr>geom_width = 0, geom_height = - 3, geom_anchor = 7\<rparr>\<rparr>)"
  by code_simp

section \<open>The fill crop\<close>

text \<open>
  Rounding to a binary format, evaluated. The binade of a number is unique, so the search
  of \<open>fp_round\<close> finds the exponent \<open>e\<close> one names, and the rounded significand is the
  integer \<open>m\<close> nearest to \<open>x / 2 ^ (e - p + 1)\<close>, the even one of the two at a tie.
\<close>

lemma pow2_powr: "pow2 e = 2 powr real_of_int e"
  by (simp add: pow2_def powr_real_of_int inverse_eq_divide)

lemma pow2_less_iff: "pow2 a < pow2 b \<longleftrightarrow> a < b"
  by (simp add: pow2_powr)

lemma pow2_le_iff: "pow2 a \<le> pow2 b \<longleftrightarrow> a \<le> b"
  by (simp add: pow2_powr)

lemma binade_unique:
  assumes "pow2 e \<le> a" "a < pow2 (e + 1)" "pow2 e' \<le> a" "a < pow2 (e' + 1)"
  shows "e' = e"
proof -
  have "pow2 e < pow2 (e' + 1)"
    using assms(1) assms(4) by (rule le_less_trans)
  moreover have "pow2 e' < pow2 (e + 1)"
    using assms(3) assms(2) by (rule le_less_trans)
  ultimately have "e < e' + 1" "e' < e + 1"
    by (simp_all only: pow2_less_iff)
  then show ?thesis by linarith
qed

lemma find_unique:
  assumes "x \<in> set xs" "P x" "\<And>y. y \<in> set xs \<Longrightarrow> P y \<Longrightarrow> y = x"
  shows "find P xs = Some x"
  using assms
proof (induction xs)
  case Nil
  then show ?case by simp
next
  case (Cons a xs)
  show ?case
  proof (cases "P a")
    case True
    have "a = x"
    proof (rule Cons.prems(3))
      show "a \<in> set (a # xs)" by simp
      show "P a" by (rule True)
    qed
    then show ?thesis using Cons.prems(2) by simp
  next
    case False
    then have "x \<noteq> a" using Cons.prems(2) by blast
    then have m: "x \<in> set xs" using Cons.prems(1) by simp
    have "find P xs = Some x"
    proof (rule Cons.IH [OF m Cons.prems(2)])
      fix y assume "y \<in> set xs" "P y"
      then show "y = x" using Cons.prems(3) [of y] by simp
    qed
    then show ?thesis using False by simp
  qed
qed

lemma round_even_eqI:
  assumes "\<bar>r - real_of_int m\<bar> < 1 / 2 \<or> \<bar>r - real_of_int m\<bar> = 1 / 2 \<and> even m"
  shows "round_even r = m"
proof -
  consider (lo) "real_of_int m \<le> r" "r - real_of_int m < 1 / 2"
    | (hi) "r < real_of_int m" "real_of_int m - r < 1 / 2"
    | (up) "r = real_of_int m + 1 / 2" "even m"
    | (dn) "r = real_of_int m - 1 / 2" "even m"
    using assms by linarith
  then show ?thesis
  proof cases
    case lo
    then have "\<lfloor>r\<rfloor> = m" by (simp add: floor_eq_iff)
    then show ?thesis using lo by (simp add: round_even_def)
  next
    case hi
    then have "\<lfloor>r\<rfloor> = m - 1" by (simp add: floor_eq_iff)
    then show ?thesis using hi by (simp add: round_even_def)
  next
    case up
    then have "\<lfloor>r\<rfloor> = m" by (simp add: floor_eq_iff)
    then show ?thesis using up by (simp add: round_even_def)
  next
    case dn
    then have "\<lfloor>r\<rfloor> = m - 1" by (simp add: floor_eq_iff)
    then show ?thesis using dn by (simp add: round_even_def)
  qed
qed

lemma fp_round_eqI:
  assumes e: "emin \<le> e" "e \<le> emax"
    and b: "pow2 e \<le> \<bar>x\<bar>" "\<bar>x\<bar> < pow2 (e + 1)"
    and m: "\<bar>x / pow2 (e - int p + 1) - real_of_int m\<bar> < 1 / 2
            \<or> \<bar>x / pow2 (e - int p + 1) - real_of_int m\<bar> = 1 / 2 \<and> even m"
    and fin: "\<bar>real_of_int m * pow2 (e - int p + 1)\<bar> < pow2 (emax + 1)"
  shows "fp_round p emin emax x = Some (real_of_int m * pow2 (e - int p + 1))"
proof -
  have "pow2 emin \<le> pow2 e"
    using e by (simp only: pow2_le_iff)
  then have n: "\<not> \<bar>x\<bar> < pow2 emin"
    using b by simp
  have f: "find (\<lambda>e. pow2 e \<le> \<bar>x\<bar> \<and> \<bar>x\<bar> < pow2 (e + 1)) [emin..emax] = Some e"
  proof (rule find_unique)
    show "e \<in> set [emin..emax]" using e by simp
    show "pow2 e \<le> \<bar>x\<bar> \<and> \<bar>x\<bar> < pow2 (e + 1)" using b by simp
    fix y assume "y \<in> set [emin..emax]" "pow2 y \<le> \<bar>x\<bar> \<and> \<bar>x\<bar> < pow2 (y + 1)"
    then show "y = e"
      using binade_unique [of e "\<bar>x\<bar>" y] b by simp
  qed
  have r: "round_even (x / pow2 (e - int p + 1)) = m"
    by (rule round_even_eqI [OF m])
  show ?thesis
    using n fin by (simp only: fp_round_def f r if_False option.case Let_def if_True)
qed

lemma fp_round_small_eqI:
  assumes b: "\<bar>x\<bar> < pow2 emin"
    and m: "\<bar>x / pow2 (emin - int p + 1) - real_of_int m\<bar> < 1 / 2
            \<or> \<bar>x / pow2 (emin - int p + 1) - real_of_int m\<bar> = 1 / 2 \<and> even m"
  shows "fp_round p emin emax x = Some (real_of_int m * pow2 (emin - int p + 1))"
proof -
  have r: "round_even (x / pow2 (emin - int p + 1)) = m"
    by (rule round_even_eqI [OF m])
  show ?thesis
    using b by (simp only: fp_round_def r if_True)
qed


lemma float32_eqI:
  assumes "- 126 \<le> e" "e \<le> 127" "pow2 e \<le> \<bar>x\<bar>" "\<bar>x\<bar> < pow2 (e + 1)"
    and "\<bar>x / pow2 (e - 23) - real_of_int m\<bar> < 1 / 2
         \<or> \<bar>x / pow2 (e - 23) - real_of_int m\<bar> = 1 / 2 \<and> even m"
    and "\<bar>real_of_int m * pow2 (e - 23)\<bar> < pow2 128"
    and "r = real_of_int m * pow2 (e - 23)"
  shows "float32 x = Some r"
  using fp_round_eqI [of "- 126" e 127 x 24 m] assms by (simp add: float32_def)

lemma float32_small_eqI:
  assumes "\<bar>x\<bar> < pow2 (- 126)"
    and "\<bar>x / pow2 (- 149) - real_of_int m\<bar> < 1 / 2
         \<or> \<bar>x / pow2 (- 149) - real_of_int m\<bar> = 1 / 2 \<and> even m"
    and "r = real_of_int m * pow2 (- 149)"
  shows "float32 x = Some r"
  using fp_round_small_eqI [of x "- 126" 24 m 127] assms by (simp add: float32_def)

lemma float64_eqI:
  assumes "- 1022 \<le> e" "e \<le> 1023" "pow2 e \<le> \<bar>x\<bar>" "\<bar>x\<bar> < pow2 (e + 1)"
    and "\<bar>x / pow2 (e - 52) - real_of_int m\<bar> < 1 / 2
         \<or> \<bar>x / pow2 (e - 52) - real_of_int m\<bar> = 1 / 2 \<and> even m"
    and "\<bar>real_of_int m * pow2 (e - 52)\<bar> < pow2 1024"
    and "r = real_of_int m * pow2 (e - 52)"
  shows "float64 x = Some r"
  using fp_round_eqI [of "- 1022" e 1023 x 53 m] assms by (simp add: float64_def)

lemma float64_small_eqI:
  assumes "\<bar>x\<bar> < pow2 (- 1022)"
    and "\<bar>x / pow2 (- 1074) - real_of_int m\<bar> < 1 / 2
         \<or> \<bar>x / pow2 (- 1074) - real_of_int m\<bar> = 1 / 2 \<and> even m"
    and "r = real_of_int m * pow2 (- 1074)"
  shows "float64 x = Some r"
  using fp_round_small_eqI [of x "- 1022" 53 m 1023] assms by (simp add: float64_def)

text \<open>
  The roundings that the crop computations below go through. The ones that are not exact:
  2 / 7 and 6379 / 4485 are no floats, the quotient 2979 / (6379 / 4485) is rounded up to
  2094.5, 12582913 / 3 is rounded up to 4194304.5, and 3 * 4194304.5 = 12582913.5 lies
  halfway between the floats 12582913 and 12582914 and goes to the even one, 12582914.
\<close>

lemma float32_values:
  shows "float32 40 = Some 40"
    and "float32 1 = Some 1"
    and "float32 100 = Some 100"
    and "float32 50 = Some 50"
    and "float32 2 = Some 2"
    and "float32 25 = Some 25"
    and "float32 7 = Some 7"
    and "float32 (2 / 7) = Some (9586981 / 33554432)"
    and "float32 4 = Some 4"
    and "float32 (1 / 4) = Some (1 / 4)"
    and "float32 (33554432 / 9586981) = Some (14680063 / 4194304)"
    and "float32 0 = Some 0"
    and "float32 6379 = Some 6379"
    and "float32 4485 = Some 4485"
    and "float32 (6379 / 4485) = Some (745693 / 524288)"
    and "float32 2979 = Some 2979"
    and "float32 3039 = Some 3039"
    and "float32 (993 / 1013) = Some (8222989 / 8388608)"
    and "float32 (1561853952 / 745693) = Some (4189 / 2)"
    and "float32 944 = Some 944"
    and "float32 472 = Some 472"
    and "float32 12582913 = Some 12582913"
    and "float32 3 = Some 3"
    and "float32 (12582913 / 3) = Some (8388609 / 2)"
    and "float32 (25165827 / 2) = Some 12582914"
    and "float32 (- 1) = Some (- 1)"
    and "float32 (- (1 / 2)) = Some (- (1 / 2))"
proof -
  show "float32 40 = Some 40"
    by (rule float32_eqI [where e = 5 and m = 10485760]) (simp_all add: pow2_def)
  show "float32 1 = Some 1"
    by (rule float32_eqI [where e = 0 and m = 8388608]) (simp_all add: pow2_def)
  show "float32 100 = Some 100"
    by (rule float32_eqI [where e = 6 and m = 13107200]) (simp_all add: pow2_def)
  show "float32 50 = Some 50"
    by (rule float32_eqI [where e = 5 and m = 13107200]) (simp_all add: pow2_def)
  show "float32 2 = Some 2"
    by (rule float32_eqI [where e = 1 and m = 8388608]) (simp_all add: pow2_def)
  show "float32 25 = Some 25"
    by (rule float32_eqI [where e = 4 and m = 13107200]) (simp_all add: pow2_def)
  show "float32 7 = Some 7"
    by (rule float32_eqI [where e = 2 and m = 14680064]) (simp_all add: pow2_def)
  show "float32 (2 / 7) = Some (9586981 / 33554432)"
    by (rule float32_eqI [where e = "- 2" and m = 9586981]) (simp_all add: pow2_def)
  show "float32 4 = Some 4"
    by (rule float32_eqI [where e = 2 and m = 8388608]) (simp_all add: pow2_def)
  show "float32 (1 / 4) = Some (1 / 4)"
    by (rule float32_eqI [where e = "- 2" and m = 8388608]) (simp_all add: pow2_def)
  show "float32 (33554432 / 9586981) = Some (14680063 / 4194304)"
    by (rule float32_eqI [where e = 1 and m = 14680063]) (simp_all add: pow2_def)
  show "float32 0 = Some 0"
    by (rule float32_small_eqI [where m = 0]) (simp_all add: pow2_def)
  show "float32 6379 = Some 6379"
    by (rule float32_eqI [where e = 12 and m = 13064192]) (simp_all add: pow2_def)
  show "float32 4485 = Some 4485"
    by (rule float32_eqI [where e = 12 and m = 9185280]) (simp_all add: pow2_def)
  show "float32 (6379 / 4485) = Some (745693 / 524288)"
    by (rule float32_eqI [where e = 0 and m = 11931088]) (simp_all add: pow2_def)
  show "float32 2979 = Some 2979"
    by (rule float32_eqI [where e = 11 and m = 12201984]) (simp_all add: pow2_def)
  show "float32 3039 = Some 3039"
    by (rule float32_eqI [where e = 11 and m = 12447744]) (simp_all add: pow2_def)
  show "float32 (993 / 1013) = Some (8222989 / 8388608)"
    by (rule float32_eqI [where e = "- 1" and m = 16445978]) (simp_all add: pow2_def)
  show "float32 (1561853952 / 745693) = Some (4189 / 2)"
    by (rule float32_eqI [where e = 11 and m = 8579072]) (simp_all add: pow2_def)
  show "float32 944 = Some 944"
    by (rule float32_eqI [where e = 9 and m = 15466496]) (simp_all add: pow2_def)
  show "float32 472 = Some 472"
    by (rule float32_eqI [where e = 8 and m = 15466496]) (simp_all add: pow2_def)
  show "float32 12582913 = Some 12582913"
    by (rule float32_eqI [where e = 23 and m = 12582913]) (simp_all add: pow2_def)
  show "float32 3 = Some 3"
    by (rule float32_eqI [where e = 1 and m = 12582912]) (simp_all add: pow2_def)
  show "float32 (12582913 / 3) = Some (8388609 / 2)"
    by (rule float32_eqI [where e = 22 and m = 8388609]) (simp_all add: pow2_def)
  show "float32 (25165827 / 2) = Some 12582914"
    by (rule float32_eqI [where e = 23 and m = 12582914]) (simp_all add: pow2_def)
  show "float32 (- 1) = Some (- 1)"
    by (rule float32_eqI [where e = 0 and m = "- 8388608"]) (simp_all add: pow2_def)
  show "float32 (- (1 / 2)) = Some (- (1 / 2))"
    by (rule float32_eqI [where e = "- 1" and m = "- 8388608"]) (simp_all add: pow2_def)
qed

lemma float64_values:
  shows "float64 (101 / 2) = Some (101 / 2)"
    and "float64 (51 / 2) = Some (51 / 2)"
    and "float64 (16777215 / 4194304) = Some (16777215 / 4194304)"
    and "float64 (1 / 2) = Some (1 / 2)"
    and "float64 2095 = Some 2095"
    and "float64 (945 / 2) = Some (945 / 2)"
    and "float64 (25165829 / 2) = Some (25165829 / 2)"
    and "float64 0 = Some 0"
proof -
  show "float64 (101 / 2) = Some (101 / 2)"
    by (rule float64_eqI [where e = 5 and m = 7107243161944064]) (simp_all add: pow2_def)
  show "float64 (51 / 2) = Some (51 / 2)"
    by (rule float64_eqI [where e = 4 and m = 7177611906121728]) (simp_all add: pow2_def)
  show "float64 (16777215 / 4194304) = Some (16777215 / 4194304)"
    by (rule float64_eqI [where e = 1 and m = 9007198717870080]) (simp_all add: pow2_def)
  show "float64 (1 / 2) = Some (1 / 2)"
    by (rule float64_eqI [where e = "- 1" and m = 4503599627370496]) (simp_all add: pow2_def)
  show "float64 2095 = Some 2095"
    by (rule float64_eqI [where e = 11 and m = 4606953720381440]) (simp_all add: pow2_def)
  show "float64 (945 / 2) = Some (945 / 2)"
    by (rule float64_eqI [where e = 8 and m = 8312307905986560]) (simp_all add: pow2_def)
  show "float64 (25165829 / 2) = Some (25165829 / 2)"
    by (rule float64_eqI [where e = 23 and m = 6755400783233024]) (simp_all add: pow2_def)
  show "float64 0 = Some 0"
    by (rule float64_small_eqI [where m = 0]) (simp_all add: pow2_def)
qed

text \<open>
  The crop rectangle on three inputs: the example of the specification, a target ratio
  that is no float (2 / 7), and a size where the rounded quotient is off the ideal side
  2979 * 4485 / 6379 = 2094.4999... by more than a half.
\<close>

lemma fill_crop_examples:
  "fill_crop 100 50 \<lparr>geom_width = 40, geom_height = 40, geom_anchor = 1 / 2\<rparr>
     = Some (50, 50, 25, 0)"
  "fill_crop 1 4 \<lparr>geom_width = 2, geom_height = 7, geom_anchor = 0\<rparr> = Some (1, 3, 0, 0)"
  "fill_crop 2979 3039 \<lparr>geom_width = 6379, geom_height = 4485, geom_anchor = 1 / 2\<rparr>
     = Some (2979, 2095, 0, 472)"
  by (simp_all add: fill_crop_def f32_of_int_def f32_div_def f32_mul_def plus_half_to_int_def
      int_of_double_def c_trunc_def float32_values float64_values)

text \<open>
  C5. The crop rectangle is claimed to lie within the source image for every image size.
  On the code, for the image of 12582913 x 3 pixels and the geometry 12582913x3 (anchor
  0.5) the rectangle is 12582914 wide and starts at 0, one pixel wider than the image: the
  two aspect ratios are the same float 4194304.5 (the quotient 12582913 / 3 rounded), and
  the product 3 * 4194304.5 = 12582913.5 is rounded to the float 12582914.
\<close>

theorem fill_crop_wider_than_image:
  "fill_crop 12582913 3 \<lparr>geom_width = 12582913, geom_height = 3, geom_anchor = 1 / 2\<rparr>
     = Some (12582914, 3, 0, 0)"
  by (simp add: fill_crop_def f32_of_int_def f32_div_def f32_mul_def plus_half_to_int_def
      int_of_double_def c_trunc_def float32_values float64_values)

section \<open>Gamma round trips\<close>

lemma unat8_less: "unat (v :: 8 word) < 256"
  using unsigned_less [of v, where ?'a = nat] by simp

lemma lut_nth:
  "init_gamma_decode_lut ! unat (v :: 8 word) = (real (unat v) * (1 / 255)) powr GAMMA"
  using unat8_less [of v] by (simp add: init_gamma_decode_lut_def del: upt_Suc of_nat_unat)

lemma float_to_uint8_half:
  "float_to_uint8 (real (unat (v :: 8 word)) + 1 / 2) = Some v"
proof -
  define n where "n = unat v"
  have lt: "n < 256"
    unfolding n_def by (rule unat8_less)
  have "\<lfloor>real n + 1 / 2\<rfloor> = int n"
    by linarith
  then have "c_trunc (real n + 1 / 2) = int n"
    by (simp add: c_trunc_def)
  then have "float_to_uint8 (real n + 1 / 2) = Some (word_of_int (int n))"
    using lt by (simp add: float_to_uint8_def)
  moreover have "word_of_int (int n) = v"
    by (simp add: n_def)
  ultimately show ?thesis
    by (simp only: n_def)
qed

lemma gamma_encode_decode:
  "gamma_encode (init_gamma_decode_lut ! unat (v :: 8 word)) = Some v"
proof -
  define r where "r = real (unat v)"
  have r0: "0 \<le> r" by (simp add: r_def del: of_nat_unat)
  have "((r * (1 / 255)) powr GAMMA) powr (1 / GAMMA) = r * (1 / 255)"
    using r0 by (simp add: powr_powr GAMMA_def)
  then have "255 * ((r * (1 / 255)) powr GAMMA) powr (1 / GAMMA) + 1 / 2 = r + 1 / 2"
    by simp
  then have "float_to_uint8 (255 * ((r * (1 / 255)) powr GAMMA) powr (1 / GAMMA) + 1 / 2) = Some v"
    by (simp only: r_def float_to_uint8_half)
  moreover have "\<not> (r * (1 / 255)) powr GAMMA < 0"
    by (simp add: not_less)
  ultimately show ?thesis
    by (simp only: gamma_encode_def lut_nth r_def [symmetric] if_False)
qed

lemma gamma_encode_decode_fast:
  "gamma_encode_fast (gamma_decode_fast v) = Some v"
proof -
  define r where "r = real (unat v)"
  have r0: "0 \<le> r" by (simp add: r_def del: of_nat_unat)
  have "sqrt ((r * (1 / 255)) * (r * (1 / 255))) = \<bar>r * (1 / 255)\<bar>"
    by (rule real_sqrt_abs2)
  then have "sqrt ((r * (1 / 255)) * (r * (1 / 255))) = r * (1 / 255)"
    using r0 by simp
  then have "255 * sqrt ((r * (1 / 255)) * (r * (1 / 255))) + 1 / 2 = r + 1 / 2"
    by simp
  then have "float_to_uint8 (255 * sqrt ((r * (1 / 255)) * (r * (1 / 255))) + 1 / 2) = Some v"
    by (simp only: r_def float_to_uint8_half)
  moreover have "\<not> (r * (1 / 255)) * (r * (1 / 255)) < 0"
    by (simp add: not_less)
  ultimately show ?thesis
    by (simp only: gamma_encode_fast_def gamma_decode_fast_def Let_def r_def [symmetric] if_False)
qed

text \<open>
  Between 0 and 1 the slope of \<open>x powr GAMMA\<close> is at most \<open>GAMMA\<close> (mean value
  theorem).
\<close>

lemma powr_GAMMA_diff:
  assumes "0 \<le> a" "a \<le> b" "b \<le> 1"
  shows "b powr GAMMA - a powr GAMMA \<le> GAMMA * (b - a)"
proof -
  have G: "1 \<le> GAMMA"
    by (simp add: GAMMA_def)
  show ?thesis
  proof (cases "a = b")
    case True
    then show ?thesis by simp
  next
    case False
    then have ab: "a < b"
      using assms by simp
    show ?thesis
    proof (cases "a = 0")
      case True
      have "b powr GAMMA \<le> b"
        using ab True assms G by (intro powr_le_one_le) simp_all
      also have "b \<le> GAMMA * b"
        using G ab True by simp
      finally show ?thesis
        using True by simp
    next
      case False
      then have apos: "0 < a"
        using assms by simp
      have "\<exists>z. a < z \<and> z < b
          \<and> b powr GAMMA - a powr GAMMA = (b - a) * (GAMMA * z powr (GAMMA - 1))"
      proof (rule MVT2 [OF ab])
        fix x assume "a \<le> x" "x \<le> b"
        then have "0 < x" using apos by simp
        then show "DERIV (\<lambda>z. z powr GAMMA) x :> GAMMA * x powr (GAMMA - 1)"
          by (rule has_real_derivative_powr)
      qed
      then obtain z where z: "a < z" "z < b"
        and eq: "b powr GAMMA - a powr GAMMA = (b - a) * (GAMMA * z powr (GAMMA - 1))"
        by blast
      have z1: "z powr (GAMMA - 1) \<le> 1"
        using z apos assms G by (intro powr_le1) simp_all
      have "GAMMA * z powr (GAMMA - 1) \<le> GAMMA * 1"
        by (rule mult_left_mono [OF z1]) (use G in simp)
      then have "(b - a) * (GAMMA * z powr (GAMMA - 1)) \<le> (b - a) * (GAMMA * 1)"
        by (rule mult_left_mono) (use ab in simp)
      then show ?thesis
        by (simp add: eq mult.commute)
    qed
  qed
qed

lemma powr_GAMMA_abs_diff:
  assumes "0 \<le> a" "a \<le> 1" "0 \<le> b" "b \<le> 1"
  shows "\<bar>b powr GAMMA - a powr GAMMA\<bar> \<le> GAMMA * \<bar>b - a\<bar>"
proof (cases "a \<le> b")
  case True
  have "a powr GAMMA \<le> b powr GAMMA"
    using True assms by (intro powr_mono2) (simp_all add: GAMMA_def)
  then show ?thesis
    using powr_GAMMA_diff [OF assms(1) True assms(4)] True by simp
next
  case False
  then have ba: "b \<le> a" by simp
  have "b powr GAMMA \<le> a powr GAMMA"
    using ba assms by (intro powr_mono2) (simp_all add: GAMMA_def)
  then show ?thesis
    using powr_GAMMA_diff [OF assms(3) ba assms(2)] ba by simp
qed

text \<open>The code of a value \<open>s\<close> in [0, 1] is the nearest of 0 .. 255 to \<open>255 * s\<close>.\<close>

lemma float_to_uint8_round:
  assumes "0 \<le> s" "s \<le> 1"
  shows "\<exists>e u. float_to_uint8 (255 * s + 1 / 2) = Some e \<and> u = real (unat e) * (1 / 255)
           \<and> \<bar>u - s\<bar> \<le> 1 / 510 \<and> 0 \<le> u \<and> u \<le> 1"
proof -
  define t where "t = \<lfloor>255 * s + 1 / 2\<rfloor>"
  have ct: "c_trunc (255 * s + 1 / 2) = t"
    using assms by (simp add: c_trunc_def t_def)
  have t0: "0 \<le> t"
    using assms by (simp add: t_def)
  have "255 * s + 1 / 2 < real_of_int 256"
    using assms by simp
  then have "t < 256"
    unfolding t_def by (simp only: floor_less_iff)
  then have t1: "t \<le> 255" by simp
  have "uint (word_of_int t :: 8 word) = t"
    using t0 t1 by (simp add: uint_word_of_int)
  then have u: "unat (word_of_int t :: 8 word) = nat t"
    by (simp only: unat_eq_nat_uint)
  have r: "real (nat t) = real_of_int t"
    using t0 by simp
  have "\<bar>real_of_int t - 255 * s\<bar> \<le> 1 / 2"
    unfolding t_def by linarith
  then have d: "\<bar>real_of_int t * (1 / 255) - s\<bar> \<le> 1 / 510"
    by linarith
  have "real_of_int t \<le> 255" "0 \<le> real_of_int t"
    using t1 t0 by simp_all
  then have le: "real_of_int t * (1 / 255) \<le> 1" "0 \<le> real_of_int t * (1 / 255)"
    by simp_all
  have "float_to_uint8 (255 * s + 1 / 2) = Some (word_of_int t)"
    using t0 t1 by (simp add: float_to_uint8_def ct)
  moreover have "real (unat (word_of_int t :: 8 word)) * (1 / 255) = real_of_int t * (1 / 255)"
    by (simp only: u r)
  ultimately show ?thesis
    using d le by metis
qed

lemma gamma_decode_encode_fast:
  assumes "0 \<le> x" "x \<le> 1"
  shows "\<exists>e. gamma_encode_fast x = Some e \<and> \<bar>gamma_decode_fast e - x\<bar> \<le> 1 / 255"
proof -
  define s where "s = sqrt x"
  have s: "0 \<le> s" "s \<le> 1" and x: "x = s * s"
    using assms by (simp_all add: s_def)
  obtain e u where e: "float_to_uint8 (255 * s + 1 / 2) = Some e"
    and u: "u = real (unat e) * (1 / 255)"
    and d: "\<bar>u - s\<bar> \<le> 1 / 510" and u0: "0 \<le> u" and le: "u \<le> 1"
    using float_to_uint8_round [OF s] by blast
  have "u * u - s * s = (u - s) * (u + s)"
    by (simp add: algebra_simps)
  then have "\<bar>u * u - s * s\<bar> = \<bar>u - s\<bar> * (u + s)"
    using u0 s by (simp add: abs_mult)
  also have "\<dots> \<le> (1 / 510) * 2"
    using d le s u0 by (intro mult_mono) simp_all
  finally have "\<bar>u * u - x\<bar> \<le> 1 / 255"
    by (simp add: x)
  moreover have "gamma_decode_fast e = u * u"
    by (simp only: gamma_decode_fast_def Let_def u)
  moreover have "gamma_encode_fast x = Some e"
    using e assms by (simp add: gamma_encode_fast_def s_def)
  ultimately show ?thesis
    by simp
qed

lemma gamma_decode_encode:
  assumes "0 \<le> x" "x \<le> 1"
  shows "\<exists>e. gamma_encode x = Some e \<and> \<bar>init_gamma_decode_lut ! unat e - x\<bar> \<le> 11 / 2550"
proof -
  define s where "s = x powr (1 / GAMMA)"
  have s: "0 \<le> s" "s \<le> 1"
    using assms by (simp_all add: s_def powr_le1 GAMMA_def)
  have x: "x = s powr GAMMA"
    using assms by (simp add: s_def powr_powr GAMMA_def)
  obtain e u where e: "float_to_uint8 (255 * s + 1 / 2) = Some e"
    and u: "u = real (unat e) * (1 / 255)"
    and d: "\<bar>u - s\<bar> \<le> 1 / 510" and u0: "0 \<le> u" and le: "u \<le> 1"
    using float_to_uint8_round [OF s] by blast
  have "\<bar>u powr GAMMA - s powr GAMMA\<bar> \<le> GAMMA * \<bar>u - s\<bar>"
    using s u0 le by (intro powr_GAMMA_abs_diff) simp_all
  also have "\<dots> \<le> GAMMA * (1 / 510)"
    using d by (intro mult_left_mono) (simp_all add: GAMMA_def)
  finally have "\<bar>u powr GAMMA - x\<bar> \<le> 11 / 2550"
    by (simp add: x GAMMA_def)
  moreover have "init_gamma_decode_lut ! unat e = u powr GAMMA"
    by (simp only: lut_nth u)
  moreover have "gamma_encode x = Some e"
    using e assms by (simp add: gamma_encode_def s_def)
  ultimately show ?thesis
    by simp
qed

lemma gamma_top_step:
  "11 / 2550 \<le> init_gamma_decode_lut ! unat (255 :: 8 word)
                  - init_gamma_decode_lut ! unat (254 :: 8 word)"
  "1 / 255 \<le> gamma_decode_fast 255 - gamma_decode_fast 254"
proof -
  have "(254 / 255 :: real) powr GAMMA \<le> (254 / 255) powr 2"
    by (rule powr_mono') (simp_all add: GAMMA_def)
  also have "\<dots> = (254 / 255)\<^sup>2"
    by simp
  finally have le: "(254 / 255 :: real) powr GAMMA \<le> 64516 / 65025"
    by (simp add: power2_eq_square)
  have a: "init_gamma_decode_lut ! 255 = 1"
    using lut_nth [of 255] by simp
  have b: "init_gamma_decode_lut ! 254 = (254 / 255) powr GAMMA"
    using lut_nth [of 254] by simp
  show "11 / 2550 \<le> init_gamma_decode_lut ! unat (255 :: 8 word)
                  - init_gamma_decode_lut ! unat (254 :: 8 word)"
    using le by (simp add: a b)
  show "1 / 255 \<le> gamma_decode_fast 255 - gamma_decode_fast 254"
    by (simp add: gamma_decode_fast_def)
qed

text \<open>
  C2. In each mode, with floats taken as exact reals: encoding the decoded value of an
  8-bit \<open>v\<close> gives \<open>v\<close> back (so it is within 1 unit), and decoding the code of a linear
  \<open>x\<close> in [0, 1] gives a value within 11/2550 (exact mode: \<open>GAMMA\<close> times half a code
  step) respectively 1/255 (fast mode) of \<open>x\<close>. Both tolerances are below one 8-bit
  quantization step in linear terms, the distance between the decoded values of the
  codes 254 and 255. The exact mode decodes by the table \<open>(v / 255) powr 2.2\<close> and encodes
  with the exponent \<open>1 / 2.2\<close>; the fast mode squares and takes the square root.
\<close>

theorem gamma_round_trip:
  "(\<forall>v. gamma_encode (init_gamma_decode_lut ! unat v) = Some v)
   \<and> (\<forall>v. gamma_encode_fast (gamma_decode_fast v) = Some v)
   \<and> (\<forall>x. 0 \<le> x \<and> x \<le> 1 \<longrightarrow>
         (\<exists>e. gamma_encode x = Some e
              \<and> \<bar>init_gamma_decode_lut ! unat e - x\<bar> \<le> 11 / 2550))
   \<and> (\<forall>x. 0 \<le> x \<and> x \<le> 1 \<longrightarrow>
         (\<exists>e. gamma_encode_fast x = Some e \<and> \<bar>gamma_decode_fast e - x\<bar> \<le> 1 / 255))
   \<and> 11 / 2550 \<le> init_gamma_decode_lut ! unat (255 :: 8 word)
                     - init_gamma_decode_lut ! unat (254 :: 8 word)
   \<and> 1 / 255 \<le> gamma_decode_fast 255 - gamma_decode_fast 254"
  using gamma_encode_decode gamma_encode_decode_fast gamma_decode_encode
    gamma_decode_encode_fast gamma_top_step
  by blast

theorem gamma_round_trip_witness:
  "(0 :: real) \<le> 1 / 4 \<and> (1 / 4 :: real) \<le> 1
   \<and> (\<exists>e. gamma_encode (1 / 4) = Some e
          \<and> \<bar>init_gamma_decode_lut ! unat e - 1 / 4\<bar> \<le> 11 / 2550)
   \<and> (\<exists>e. gamma_encode_fast (1 / 4) = Some e \<and> \<bar>gamma_decode_fast e - 1 / 4\<bar> \<le> 1 / 255)
   \<and> gamma_encode (init_gamma_decode_lut ! unat (128 :: 8 word)) = Some 128
   \<and> gamma_encode_fast (gamma_decode_fast 128) = Some 128"
proof -
  have h: "(0 :: real) \<le> 1 / 4 \<and> (1 / 4 :: real) \<le> 1"
    by simp
  show ?thesis
    using h gamma_round_trip by blast
qed

section \<open>Nearest-neighbour scaling\<close>

text \<open>When the target is less than twice as wide as the source, the indices are in range.\<close>

lemma nearest_src_in_range:
  assumes "1 \<le> sw" "1 \<le> tw" "tw < 2 * sw" "0 \<le> x" "x < tw"
  shows "0 \<le> nearest_src x sw (1 / real_of_int tw)
       \<and> nearest_src x sw (1 / real_of_int tw) < sw"
proof -
  define r where "r = real_of_int (x * sw) * (1 / real_of_int tw)"
  have tw_pos: "0 < real_of_int tw"
    using assms by simp
  have r0: "0 \<le> r"
    using assms by (simp add: r_def)
  have "x * sw \<le> (tw - 1) * sw"
    using assms by (intro mult_right_mono) simp_all
  then have "real_of_int (x * sw) \<le> real_of_int ((tw - 1) * sw)"
    by (simp only: of_int_le_iff)
  then have "r \<le> real_of_int ((tw - 1) * sw) / real_of_int tw"
    using tw_pos by (simp add: r_def divide_right_mono)
  also have "\<dots> = real_of_int sw - real_of_int sw / real_of_int tw"
    using tw_pos by (simp add: field_simps)
  also have "\<dots> < real_of_int sw - 1 / 2"
  proof -
    have "real_of_int tw < 2 * real_of_int sw"
      using assms(3) by (metis of_int_less_iff of_int_mult of_int_numeral)
    then have "1 / 2 < real_of_int sw / real_of_int tw"
      using tw_pos by (simp add: field_simps)
    then show ?thesis by simp
  qed
  finally have "r + 1 / 2 < real_of_int sw"
    by simp
  then have "\<lfloor>r + 1 / 2\<rfloor> < sw"
    by (simp only: floor_less_iff)
  moreover have "0 \<le> \<lfloor>r + 1 / 2\<rfloor>"
    using r0 by simp
  moreover have "nearest_src x sw (1 / real_of_int tw) = \<lfloor>r + 1 / 2\<rfloor>"
    using r0 by (simp add: nearest_src_def c_trunc_def r_def)
  ultimately show ?thesis
    by simp
qed

text \<open>
  C9. Every source index of \<open>img_interp_nearest\<close> is claimed to lie within the source.
  On the code, for a source of width 1 and a target of width 2 the destination \<open>x = 1\<close>
  has the source index 1, which is outside 0 .. 0: scaling the 1 x 2 image with the rows
  (1, 2, 3) and (4, 5, 6) to 2 x 1 reads the second pixel of the result from the second
  row.
\<close>

theorem nearest_src_out_of_range:
  "nearest_src 1 1 (1 / real_of_int 2) = 1
   \<and> map_option (\<lambda>r. (width r, height r, map_option (take 6) (pixels r)))
       (img_interp_nearest
          \<lparr>width = 1, height = 2, stride = 3, owner = True, alloc_size = 24,
           pixels = Some ([1, 2, 3, 4, 5, 6] @ replicate 66 0)\<rparr> 2 1)
     = Some (2, 1, Some [1, 2, 3, 4, 5, 6])"
  by code_simp

section \<open>Rules for the loops\<close>

lemma rd_int [simp]: "rd xs (int i) = (if i < length xs then Some (xs ! i) else None)"
  by (simp add: rd_def)

lemma wr_int [simp]: "wr xs (int i) v = (if i < length xs then Some (xs[i := v]) else None)"
  by (simp add: wr_def)

lemma for_each_append:
  "for_each (xs @ ys) body s
     = (case for_each xs body s of None \<Rightarrow> None | Some s' \<Rightarrow> for_each ys body s')"
  by (induction xs arbitrary: s) (auto split: option.splits)

lemma for_each_upt_rule:
  assumes init: "I 0 s"
    and step: "\<And>i s. i < n \<Longrightarrow> I i s \<Longrightarrow> \<exists>s'. body i s = Some s' \<and> I (Suc i) s'"
  shows "\<exists>s'. for_each [0..<n] body s = Some s' \<and> I n s'"
  using step
proof (induction n)
  case 0
  then show ?case using init by simp
next
  case (Suc n)
  have "\<exists>s'. for_each [0..<n] body s = Some s' \<and> I n s'"
    by (rule Suc.IH) (simp add: Suc.prems)
  then obtain s1 where s1: "for_each [0..<n] body s = Some s1" "I n s1"
    by blast
  obtain s2 where s2: "body n s1 = Some s2" "I (Suc n) s2"
    using Suc.prems [of n s1] s1(2) by auto
  show ?case
    using s1 s2 by (simp add: for_each_append)
qed

lemma for_each_map: "for_each (map g xs) body s = for_each xs (\<lambda>i. body (g i)) s"
  by (induction xs arbitrary: s) (auto split: option.splits)

lemma for_each_from_rule:
  assumes init: "I m s" and mn: "m \<le> n"
    and step: "\<And>i s. m \<le> i \<Longrightarrow> i < n \<Longrightarrow> I i s \<Longrightarrow> \<exists>s'. body i s = Some s' \<and> I (Suc i) s'"
  shows "\<exists>s'. for_each [m..<n] body s = Some s' \<and> I n s'"
  using mn step
proof (induction n)
  case 0
  then show ?case using init by simp
next
  case (Suc n)
  show ?case
  proof (cases "m = Suc n")
    case True
    then show ?thesis using init by simp
  next
    case False
    then have mn: "m \<le> n"
      using Suc.prems(1) by simp
    have "\<exists>s'. for_each [m..<n] body s = Some s' \<and> I n s'"
      by (rule Suc.IH [OF mn]) (simp add: Suc.prems(2))
    then obtain s1 where s1: "for_each [m..<n] body s = Some s1" "I n s1"
      by blast
    obtain s2 where s2: "body n s1 = Some s2" "I (Suc n) s2"
      using Suc.prems(2) [of n s1] mn s1(2) by auto
    show ?thesis
      using s1 s2 mn by (simp add: for_each_append)
  qed
qed

text \<open>
  A loop over the three channels that writes \<open>val c\<close> into the cell \<open>B + c\<close>, where the
  body may read any cell that the loop has not written yet.
\<close>

lemma for_each_chan:
  fixes dp :: "real list"
  assumes body: "\<And>c d. c < 3 \<Longrightarrow> length d = length dp
        \<Longrightarrow> (\<forall>j. j < B \<or> B + c \<le> j \<longrightarrow> d ! j = dp ! j)
        \<Longrightarrow> body c d = wr d (int (B + c)) (val c)"
    and len: "B + 3 \<le> length dp"
  shows "\<exists>d'. for_each [0..<3] body dp = Some d' \<and> length d' = length dp
           \<and> (\<forall>c. c < 3 \<longrightarrow> d' ! (B + c) = val c)
           \<and> (\<forall>j. j < B \<or> B + 3 \<le> j \<longrightarrow> d' ! j = dp ! j)"
proof -
  define I where "I c d \<longleftrightarrow> length d = length dp
      \<and> (\<forall>c'. c' < c \<longrightarrow> d ! (B + c') = val c')
      \<and> (\<forall>j. j < B \<or> B + c \<le> j \<longrightarrow> d ! j = dp ! j)" for c d
  have "\<exists>d'. for_each [0..<3] body dp = Some d' \<and> I 3 d'"
  proof (rule for_each_upt_rule [where I = I])
    show "I 0 dp"
      by (simp add: I_def)
  next
    fix c d assume c: "c < 3" and i: "I c d"
    have l: "length d = length dp"
      using i by (simp add: I_def)
    have "body c d = wr d (int (B + c)) (val c)"
      using i by (intro body [OF c]) (simp_all add: I_def)
    then have b: "body c d = Some (d[B + c := val c])"
      using c len l by (simp only: wr_int) simp
    have "I (Suc c) (d[B + c := val c])"
      unfolding I_def
    proof (intro conjI allI impI)
      show "length (d[B + c := val c]) = length dp"
        by (simp add: l)
    next
      fix c' assume "c' < Suc c"
      then show "d[B + c := val c] ! (B + c') = val c'"
        using i c len l by (cases "c' = c") (simp_all add: I_def)
    next
      fix j assume "j < B \<or> B + Suc c \<le> j"
      then show "d[B + c := val c] ! j = dp ! j"
        using i by (auto simp: I_def)
    qed
    then show "\<exists>s'. body c d = Some s' \<and> I (Suc c) s'"
      using b by blast
  qed
  then show ?thesis
    by (auto simp: I_def)
qed

section \<open>Transposition\<close>

lemma IDX_less:
  assumes "x < w" "y < h" "c < 3"
  shows "IDX w x y 3 + c < 3 * w * h"
proof -
  have "w * y + x < w * y + w"
    using assms by simp
  also have "\<dots> = w * Suc y"
    by simp
  also have "\<dots> \<le> w * h"
    using assms by (intro mult_le_mono2) simp
  finally have "w * y + x < w * h" .
  then have "3 * (w * y + x) + c < 3 * (w * h)"
    using assms by simp
  then show ?thesis
    by (simp add: IDX_def mult.assoc)
qed

lemma IDX_inj:
  assumes "x < w" "x' < w" "c < 3" "c' < 3"
    and eq: "IDX w x y 3 + c = IDX w x' y' 3 + c'"
  shows "x = x' \<and> y = y' \<and> c = c'"
proof -
  have e: "3 * (w * y + x) + c = 3 * (w * y' + x') + c'"
    using eq by (simp add: IDX_def)
  have m3: "(3 * k + d) mod 3 = d" if "d < 3" for k d :: nat
    using that by simp
  have "(3 * (w * y + x) + c) mod 3 = c" "(3 * (w * y' + x') + c') mod 3 = c'"
    using assms by (simp_all only: m3)
  then have c: "c = c'"
    using e by simp
  then have f: "w * y + x = w * y' + x'"
    using e by simp
  have "(w * y + x) mod w = x" "(w * y' + x') mod w = x'"
    using assms by simp_all
  then have x: "x = x'"
    using f by simp
  then have "w * y = w * y'"
    using f by simp
  then have "y = y'"
    using assms by simp
  then show ?thesis
    using c x by simp
qed

lemma tr_inv_step:
  assumes inv: "tr_inv sp w h L y x c dp"
    and b: "y < h" "x < w" "c < 3"
    and L: "3 * w * h \<le> L" "3 * w * h \<le> length sp"
  shows "\<exists>dp'. (case rd sp (int (IDX w x y 3 + c)) of
                  None \<Rightarrow> None
                | Some v \<Rightarrow> wr dp (int (IDX h y x 3 + c)) v) = Some dp'
               \<and> tr_inv sp w h L y x (Suc c) dp'"
proof -
  have len: "length dp = L"
    using inv by (simp add: tr_inv_def)
  have s: "IDX w x y 3 + c < length sp"
    using IDX_less [OF b(2) b(1) b(3)] L by simp
  have "IDX h y x 3 + c < 3 * h * w"
    by (rule IDX_less [OF b(1) b(2) b(3)])
  then have d: "IDX h y x 3 + c < length dp"
    using L len by (simp add: mult.commute mult.left_commute)
  define dp' where "dp' = dp[IDX h y x 3 + c := sp ! (IDX w x y 3 + c)]"
  have "tr_inv sp w h L y x (Suc c) dp'"
    unfolding tr_inv_def
  proof (intro conjI allI impI)
    show "length dp' = L"
      by (simp add: dp'_def len)
  next
    fix y' x' c'
    assume a: "y' < h \<and> x' < w \<and> c' < 3 \<and> tr_done y x (Suc c) y' x' c'"
    show "dp' ! (IDX h y' x' 3 + c') = sp ! (IDX w x' y' 3 + c')"
    proof (cases "y' = y \<and> x' = x \<and> c' = c")
      case True
      then show ?thesis
        using d by (simp add: dp'_def)
    next
      case False
      then have "IDX h y' x' 3 + c' \<noteq> IDX h y x 3 + c"
        using IDX_inj [of y' h y c' c x' x] a b by blast
      moreover have "tr_done y x c y' x' c'"
        using a False by (auto simp: tr_done_def)
      ultimately show ?thesis
        using inv a by (simp add: dp'_def tr_inv_def)
    qed
  qed
  then show ?thesis
    using s d by (simp add: dp'_def del: of_nat_add)
qed

lemma tr_done_next_x: "c' < 3 \<Longrightarrow> tr_done y (Suc x) 0 y' x' c' = tr_done y x 3 y' x' c'"
  by (auto simp: tr_done_def less_Suc_eq)

lemma tr_done_next_y: "x' < w \<Longrightarrow> tr_done (Suc y) 0 0 y' x' c' = tr_done y w 0 y' x' c'"
  by (auto simp: tr_done_def less_Suc_eq)

lemma tr_inv_next_x: "tr_inv sp w h L y x 3 dp \<Longrightarrow> tr_inv sp w h L y (Suc x) 0 dp"
  unfolding tr_inv_def using tr_done_next_x by blast

lemma tr_inv_next_y: "tr_inv sp w h L y w 0 dp \<Longrightarrow> tr_inv sp w h L (Suc y) 0 0 dp"
  unfolding tr_inv_def using tr_done_next_y by blast

lemma transpose_loops:
  fixes sp dp :: "real list"
  assumes L: "3 * w * h \<le> length dp" "3 * w * h \<le> length sp"
  shows "\<exists>dp'. for_each [0..<h]
                 (\<lambda>y. for_each [0..<w]
                    (\<lambda>x. for_each [0..<3]
                       (\<lambda>c dp.
                          case rd sp (int (IDX w x y 3 + c)) of
                            None \<Rightarrow> None
                          | Some v \<Rightarrow> wr dp (int (IDX h y x 3 + c)) v)))
                 dp = Some dp'
               \<and> length dp' = length dp
               \<and> (\<forall>y x c. y < h \<and> x < w \<and> c < 3
                    \<longrightarrow> dp' ! (IDX h y x 3 + c) = sp ! (IDX w x y 3 + c))"
proof -
  let ?body = "\<lambda>y x c dp. case rd sp (int (IDX w x y 3 + c)) of
                            None \<Rightarrow> None
                          | Some v \<Rightarrow> wr dp (int (IDX h y x 3 + c)) v"
  let ?I = "tr_inv sp w h (length dp)"
  have inner: "\<exists>d'. for_each [0..<3] (?body y x) d = Some d' \<and> ?I y (Suc x) 0 d'"
    if yx: "y < h" "x < w" and d: "?I y x 0 d" for y x d
  proof -
    have "\<exists>d'. for_each [0..<3] (?body y x) d = Some d' \<and> ?I y x 3 d'"
    proof (rule for_each_upt_rule [where I = "\<lambda>c. ?I y x c"])
      show "?I y x 0 d" by (rule d)
    next
      fix c s assume "c < 3" "?I y x c s"
      then show "\<exists>s'. ?body y x c s = Some s' \<and> ?I y x (Suc c) s'"
        using yx L by (intro tr_inv_step) simp_all
    qed
    then show ?thesis
      using tr_inv_next_x by blast
  qed
  have middle: "\<exists>d'. for_each [0..<w] (\<lambda>x. for_each [0..<3] (?body y x)) d = Some d'
      \<and> ?I (Suc y) 0 0 d'"
    if y: "y < h" and d: "?I y 0 0 d" for y d
  proof -
    have "\<exists>d'. for_each [0..<w] (\<lambda>x. for_each [0..<3] (?body y x)) d = Some d' \<and> ?I y w 0 d'"
    proof (rule for_each_upt_rule [where I = "\<lambda>x. ?I y x 0"])
      show "?I y 0 0 d" by (rule d)
    next
      fix x s assume "x < w" "?I y x 0 s"
      then show "\<exists>s'. for_each [0..<3] (?body y x) s = Some s' \<and> ?I y (Suc x) 0 s'"
        using y by (intro inner)
    qed
    then show ?thesis
      using tr_inv_next_y by blast
  qed
  have "\<exists>d'. for_each [0..<h] (\<lambda>y. for_each [0..<w] (\<lambda>x. for_each [0..<3] (?body y x))) dp
      = Some d' \<and> ?I h 0 0 d'"
  proof (rule for_each_upt_rule [where I = "\<lambda>y. ?I y 0 0"])
    show "?I 0 0 0 dp"
      by (simp add: tr_inv_def tr_done_def)
  next
    fix y s assume "y < h" "?I y 0 0 s"
    then show "\<exists>s'. for_each [0..<w] (\<lambda>x. for_each [0..<3] (?body y x)) s = Some s'
        \<and> ?I (Suc y) 0 0 s'"
      by (intro middle)
  qed
  then obtain d' where d': "for_each [0..<h]
      (\<lambda>y. for_each [0..<w] (\<lambda>x. for_each [0..<3] (?body y x))) dp = Some d'"
    and I: "?I h 0 0 d'"
    by blast
  have "length d' = length dp"
    using I by (simp add: tr_inv_def)
  moreover have "\<forall>y x c. y < h \<and> x < w \<and> c < 3
      \<longrightarrow> d' ! (IDX h y x 3 + c) = sp ! (IDX w x y 3 + c)"
    using I by (simp add: tr_inv_def tr_done_def)
  ultimately show ?thesis
    using d' by blast
qed

lemma img_set_size_fields [simp]:
  "width (img_set_size d w h) = w"
  "height (img_set_size d w h) = h"
  "stride (img_set_size d w h) = 3 * w"
  by (simp_all add: img_set_size_def Let_def)

lemma img_set_size_pixels:
  assumes ok: "img_ok d"
  shows "\<exists>p. pixels (img_set_size d (int w) (int h)) = Some p \<and> 3 * w * h \<le> length p
           \<and> img_ok (img_set_size d (int w) (int h))"
proof -
  have "12 * int w * int h = int (12 * w * h)"
    by simp
  then have sz: "nat (12 * int w * int h) = 12 * w * h"
    by (simp only: nat_int)
  show ?thesis
  proof (cases "pixels d = None \<or> 12 * w * h > alloc_size d")
    case True
    then show ?thesis
      by (auto simp: img_set_size_def Let_def sz img_ok_def)
  next
    case False
    then obtain p where p: "pixels d = Some p" and le: "12 * w * h \<le> alloc_size d"
      by auto
    have "length p = 3 * alloc_size d"
      using ok p by (simp add: img_ok_def)
    then have "3 * w * h \<le> length p"
      using le by simp
    then show ?thesis
      using False p ok by (auto simp: img_set_size_def Let_def sz img_ok_def)
  qed
qed

text \<open>
  A source that is packed (its stride is 3 times its width) is transposed correctly: the
  destination has the dimensions swapped and holds every source pixel at the swapped
  coordinates.
\<close>

lemma img_transpose_packed:
  assumes src: "width src = int w" "height src = int h" "pixels src = Some sp"
    and len: "3 * w * h \<le> length sp"
    and ok: "img_ok dst0"
  shows "\<exists>t tp. img_transpose src dst0 = Some t
           \<and> width t = int h \<and> height t = int w \<and> stride t = 3 * int h
           \<and> pixels t = Some tp \<and> 3 * h * w \<le> length tp \<and> img_ok t
           \<and> (\<forall>y x c. y < h \<and> x < w \<and> c < 3
                \<longrightarrow> tp ! (IDX h y x 3 + c) = sp ! (IDX w x y 3 + c))"
proof -
  define dst where "dst = img_set_size dst0 (int h) (int w)"
  obtain dp where dp: "pixels dst = Some dp" and dlen: "3 * h * w \<le> length dp"
    and dok: "img_ok dst"
    using img_set_size_pixels [OF ok, of h w] unfolding dst_def by blast
  have dlen': "3 * w * h \<le> length dp"
    using dlen by (simp add: mult.commute mult.left_commute)
  obtain dp' where loops: "for_each [0..<h]
                 (\<lambda>y. for_each [0..<w]
                    (\<lambda>x. for_each [0..<3]
                       (\<lambda>c dp.
                          case rd sp (int (IDX w x y 3 + c)) of
                            None \<Rightarrow> None
                          | Some v \<Rightarrow> wr dp (int (IDX h y x 3 + c)) v)))
                 dp = Some dp'"
    and l': "length dp' = length dp"
    and vals: "\<forall>y x c. y < h \<and> x < w \<and> c < 3
                    \<longrightarrow> dp' ! (IDX h y x 3 + c) = sp ! (IDX w x y 3 + c)"
    using transpose_loops [OF dlen' len] by blast
  have res: "img_transpose src dst0 = Some (dst\<lparr>pixels := Some dp'\<rparr>)"
    using src dp loops by (simp add: img_transpose_def dst_def [symmetric] del: of_nat_add)
  have "img_ok (dst\<lparr>pixels := Some dp'\<rparr>)"
    using dok dp l' by (simp add: img_ok_def)
  then show ?thesis
    using res dlen l' vals by (simp add: dst_def)
qed


lemma pixel_at_packed:
  assumes "pixels im = Some p" "stride im = 3 * int w" "x < w" "y < h" "c < 3"
    and "3 * w * h \<le> length p"
  shows "pixel_at im (int x) (int y) c = Some (p ! (IDX w x y 3 + c))"
proof -
  have "3 * int w * int y + 3 * int x + int c = int (IDX w x y 3 + c)"
    by (simp add: IDX_def algebra_simps)
  moreover have "IDX w x y 3 + c < length p"
    using IDX_less [of x w y h c] assms by simp
  ultimately show ?thesis
    using assms(1,2) by (simp only: pixel_at_def option.case rd_int if_True)
qed

text \<open>
  C4. For an owned buffer (packed: the stride that \<open>img_set_size\<close> gives every buffer
  it allocates, with all its pixels in storage), \<open>img_transpose\<close> applied twice, into any
  two destinations in a valid state, succeeds and reproduces the original: the same width
  and height, and every channel of every pixel equal to the original's.
\<close>

theorem img_transpose_twice:
  assumes dims: "1 \<le> width src" "1 \<le> height src"
    and packed: "stride src = 3 * width src"
    and px: "pixels src = Some sp"
    and len: "3 * nat (width src) * nat (height src) \<le> length sp"
    and ok: "img_ok dst0" "img_ok dst1"
  shows "\<exists>t r. img_transpose src dst0 = Some t \<and> img_transpose t dst1 = Some r
           \<and> width r = width src \<and> height r = height src
           \<and> (\<forall>x y c. 0 \<le> x \<and> x < width src \<and> 0 \<le> y \<and> y < height src \<and> c < 3
                \<longrightarrow> (\<exists>v. pixel_at src x y c = Some v \<and> pixel_at r x y c = Some v))"
proof -
  define w where "w = nat (width src)"
  define h where "h = nat (height src)"
  have wh: "width src = int w" "height src = int h"
    using dims by (simp_all add: w_def h_def)
  have len': "3 * w * h \<le> length sp"
    using len by (simp add: w_def h_def)
  obtain t tp where t: "img_transpose src dst0 = Some t"
    and tf: "width t = int h" "height t = int w" "pixels t = Some tp"
    and tlen: "3 * h * w \<le> length tp"
    and tv: "\<forall>y x c. y < h \<and> x < w \<and> c < 3
                \<longrightarrow> tp ! (IDX h y x 3 + c) = sp ! (IDX w x y 3 + c)"
    using img_transpose_packed [OF wh px len' ok(1)] by blast
  obtain r rp where r: "img_transpose t dst1 = Some r"
    and rf: "width r = int w" "height r = int h" "stride r = 3 * int w" "pixels r = Some rp"
    and rlen: "3 * w * h \<le> length rp"
    and rv: "\<forall>y x c. y < w \<and> x < h \<and> c < 3
                \<longrightarrow> rp ! (IDX w y x 3 + c) = tp ! (IDX h x y 3 + c)"
    using img_transpose_packed [OF tf tlen ok(2)] by blast
  have "\<exists>v. pixel_at src x y c = Some v \<and> pixel_at r x y c = Some v"
    if b: "0 \<le> x \<and> x < width src \<and> 0 \<le> y \<and> y < height src \<and> c < 3" for x y c
  proof -
    define x' where "x' = nat x"
    define y' where "y' = nat y"
    have xy: "x = int x'" "y = int y'" "x' < w" "y' < h"
      using b wh by (auto simp: x'_def y'_def)
    have c: "c < 3" using b by simp
    have st: "stride src = 3 * int w"
      using packed wh by simp
    have "pixel_at src x y c = Some (sp ! (IDX w x' y' 3 + c))"
      unfolding xy by (rule pixel_at_packed [OF px st xy(3,4) c len'])
    moreover have "pixel_at r x y c = Some (rp ! (IDX w x' y' 3 + c))"
      unfolding xy by (rule pixel_at_packed [OF rf(4) rf(3) xy(3,4) c rlen])
    moreover have "rp ! (IDX w x' y' 3 + c) = sp ! (IDX w x' y' 3 + c)"
      using rv tv xy c by simp
    ultimately show ?thesis
      by simp
  qed
  then have all: "\<forall>x y c. 0 \<le> x \<and> x < width src \<and> 0 \<le> y \<and> y < height src \<and> c < 3
                \<longrightarrow> (\<exists>v. pixel_at src x y c = Some v \<and> pixel_at r x y c = Some v)"
    by blast
  show ?thesis
  proof (intro exI conjI)
    show "img_transpose src dst0 = Some t" by (rule t)
    show "img_transpose t dst1 = Some r" by (rule r)
    show "width r = width src" using rf wh by simp
    show "height r = height src" using rf wh by simp
    show "\<forall>x y c. 0 \<le> x \<and> x < width src \<and> 0 \<le> y \<and> y < height src \<and> c < 3
                \<longrightarrow> (\<exists>v. pixel_at src x y c = Some v \<and> pixel_at r x y c = Some v)"
      by (rule all)
  qed
qed

theorem img_transpose_twice_witness:
  "(1 :: int) \<le> 2 \<and> (1 :: int) \<le> 1
   \<and> (\<exists>t r. img_transpose
                \<lparr>width = 2, height = 1, stride = 6, owner = True, alloc_size = 2,
                 pixels = Some [1, 2, 3, 4, 5, 6]\<rparr> img_blank = Some t
            \<and> img_transpose t img_blank = Some r
            \<and> width r = 2 \<and> height r = 1 \<and> pixel_at r 1 0 2 = Some 6)"
proof -
  define src where "src = \<lparr>width = 2, height = 1, stride = 6, owner = True, alloc_size = 2,
                 pixels = Some [1, 2, 3, 4, 5, 6 :: real]\<rparr>"
  have h: "1 \<le> width src" "1 \<le> height src" "stride src = 3 * width src"
    "pixels src = Some [1, 2, 3, 4, 5, 6]"
    "3 * nat (width src) * nat (height src) \<le> length [1, 2, 3, 4, 5, 6 :: real]"
    "img_ok img_blank"
    by (simp_all add: src_def img_ok_def img_blank_def)
  have p: "pixel_at src 1 0 2 = Some 6"
    by (simp add: src_def pixel_at_def rd_def)
  obtain t r where t: "img_transpose src img_blank = Some t"
    and r: "img_transpose t img_blank = Some r"
    and d: "width r = width src" "height r = height src"
    and v: "\<forall>x y c. 0 \<le> x \<and> x < width src \<and> 0 \<le> y \<and> y < height src \<and> c < 3
                \<longrightarrow> (\<exists>v. pixel_at src x y c = Some v \<and> pixel_at r x y c = Some v)"
    using img_transpose_twice [OF h(1-5) h(6) h(6)] by blast
  have "\<exists>v. pixel_at src 1 0 2 = Some v \<and> pixel_at r 1 0 2 = Some v"
    by (rule v [rule_format]) (simp add: src_def)
  then have pr: "pixel_at r 1 0 2 = Some 6"
    using p by simp
  have wr: "width r = 2" "height r = 1"
    using d by (simp_all add: src_def)
  have "\<exists>t r. img_transpose src img_blank = Some t \<and> img_transpose t img_blank = Some r
            \<and> width r = 2 \<and> height r = 1 \<and> pixel_at r 1 0 2 = Some 6"
    using t r wr pr by blast
  then show ?thesis
    unfolding src_def by simp
qed

text \<open>
  C3. For every packed source buffer (its stride is 3 times its width, the stride that
  \<open>img_set_size\<close> gives every buffer it allocates and that every buffer \<open>main\<close>
  transposes has) of width and height at least 1 with all its pixels in storage,
  \<open>img_transpose\<close> into any destination in a valid state succeeds and produces a buffer
  with width and height swapped, where the pixel in row \<open>x\<close> and column \<open>y\<close> equals the
  source's pixel in row \<open>y\<close> and column \<open>x\<close>, in all three channels.
\<close>

theorem img_transpose_packed_swaps:
  assumes dims: "1 \<le> width src" "1 \<le> height src"
    and packed: "stride src = 3 * width src"
    and px: "pixels src = Some sp"
    and len: "3 * nat (width src) * nat (height src) \<le> length sp"
    and ok: "img_ok dst0"
  shows "\<exists>t. img_transpose src dst0 = Some t
           \<and> width t = height src \<and> height t = width src
           \<and> (\<forall>x y c. 0 \<le> x \<and> x < width src \<and> 0 \<le> y \<and> y < height src \<and> c < 3
                \<longrightarrow> (\<exists>v. pixel_at src x y c = Some v \<and> pixel_at t y x c = Some v))"
proof -
  define w where "w = nat (width src)"
  define h where "h = nat (height src)"
  have wh: "width src = int w" "height src = int h"
    using dims by (simp_all add: w_def h_def)
  have len': "3 * w * h \<le> length sp"
    using len by (simp add: w_def h_def)
  obtain t tp where t: "img_transpose src dst0 = Some t"
    and tf: "width t = int h" "height t = int w" "stride t = 3 * int h" "pixels t = Some tp"
    and tlen: "3 * h * w \<le> length tp"
    and tv: "\<forall>y x c. y < h \<and> x < w \<and> c < 3
                \<longrightarrow> tp ! (IDX h y x 3 + c) = sp ! (IDX w x y 3 + c)"
    using img_transpose_packed [OF wh px len' ok] by blast
  have "\<exists>v. pixel_at src x y c = Some v \<and> pixel_at t y x c = Some v"
    if b: "0 \<le> x \<and> x < width src \<and> 0 \<le> y \<and> y < height src \<and> c < 3" for x y c
  proof -
    define x' where "x' = nat x"
    define y' where "y' = nat y"
    have xy: "x = int x'" "y = int y'" "x' < w" "y' < h"
      using b wh by (auto simp: x'_def y'_def)
    have c: "c < 3" using b by simp
    have st: "stride src = 3 * int w"
      using packed wh by simp
    have "pixel_at src x y c = Some (sp ! (IDX w x' y' 3 + c))"
      unfolding xy by (rule pixel_at_packed [OF px st xy(3,4) c len'])
    moreover have "pixel_at t y x c = Some (tp ! (IDX h y' x' 3 + c))"
      unfolding xy by (rule pixel_at_packed [OF tf(4) tf(3) xy(4) xy(3) c tlen])
    moreover have "tp ! (IDX h y' x' 3 + c) = sp ! (IDX w x' y' 3 + c)"
      using tv xy c by simp
    ultimately show ?thesis
      by simp
  qed
  then have all: "\<forall>x y c. 0 \<le> x \<and> x < width src \<and> 0 \<le> y \<and> y < height src \<and> c < 3
                \<longrightarrow> (\<exists>v. pixel_at src x y c = Some v \<and> pixel_at t y x c = Some v)"
    by blast
  show ?thesis
  proof (intro exI conjI)
    show "img_transpose src dst0 = Some t" by (rule t)
    show "width t = height src" using tf wh by simp
    show "height t = width src" using tf wh by simp
    show "\<forall>x y c. 0 \<le> x \<and> x < width src \<and> 0 \<le> y \<and> y < height src \<and> c < 3
                \<longrightarrow> (\<exists>v. pixel_at src x y c = Some v \<and> pixel_at t y x c = Some v)"
      by (rule all)
  qed
qed

theorem img_transpose_packed_swaps_witness:
  "(1 :: int) \<le> 2 \<and> (1 :: int) \<le> 2
   \<and> (\<exists>t. img_transpose
              \<lparr>width = 2, height = 2, stride = 6, owner = True, alloc_size = 48,
               pixels = Some [0, 1, 2, 3, 4, 5, 6, 7, 8, 9, 10, 11]\<rparr> img_blank = Some t
          \<and> width t = 2 \<and> height t = 2
          \<and> pixel_at t 1 0 0 = Some 6 \<and> pixel_at t 0 1 0 = Some 3)"
proof -
  define src where "src = \<lparr>width = 2, height = 2, stride = 6, owner = True, alloc_size = 48,
                 pixels = Some [0, 1, 2, 3, 4, 5, 6, 7, 8, 9, 10, 11 :: real]\<rparr>"
  have h: "1 \<le> width src" "1 \<le> height src" "stride src = 3 * width src"
    "pixels src = Some [0, 1, 2, 3, 4, 5, 6, 7, 8, 9, 10, 11]"
    "3 * nat (width src) * nat (height src)
       \<le> length [0, 1, 2, 3, 4, 5, 6, 7, 8, 9, 10, 11 :: real]"
    "img_ok img_blank"
    by (simp_all add: src_def img_ok_def img_blank_def)
  have p: "pixel_at src 0 1 0 = Some 6" "pixel_at src 1 0 0 = Some 3"
    by (simp_all add: src_def pixel_at_def rd_def)
  obtain t where t: "img_transpose src img_blank = Some t"
    and d: "width t = height src" "height t = width src"
    and v: "\<forall>x y c. 0 \<le> x \<and> x < width src \<and> 0 \<le> y \<and> y < height src \<and> c < 3
                \<longrightarrow> (\<exists>v. pixel_at src x y c = Some v \<and> pixel_at t y x c = Some v)"
    using img_transpose_packed_swaps [OF h] by blast
  have "\<exists>v. pixel_at src 0 1 0 = Some v \<and> pixel_at t 1 0 0 = Some v"
    by (rule v [rule_format]) (simp add: src_def)
  then have p1: "pixel_at t 1 0 0 = Some 6"
    using p by simp
  have "\<exists>v. pixel_at src 1 0 0 = Some v \<and> pixel_at t 0 1 0 = Some v"
    by (rule v [rule_format]) (simp add: src_def)
  then have p2: "pixel_at t 0 1 0 = Some 3"
    using p by simp
  have wt: "width t = 2" "height t = 2"
    using d by (simp_all add: src_def)
  have "\<exists>t. img_transpose src img_blank = Some t \<and> width t = 2 \<and> height t = 2
          \<and> pixel_at t 1 0 0 = Some 6 \<and> pixel_at t 0 1 0 = Some 3"
    using t wt p1 p2 by blast
  then show ?thesis
    unfolding src_def by simp
qed

text \<open>
  The cropped views that the claim C3 includes are outside this: \<open>img_transpose\<close> indexes
  the source with 3 times the width in place of the stride. The view of the left column of
  a 2 x 2 image (width 1, height 2, stride 6; its pixels are (0, 1, 2) and (6, 7, 8)) is
  transposed to the 2 x 1 image with the pixels (0, 1, 2) and (3, 4, 5): the second pixel
  comes from the right column of the parent, not from the second row of the view.
\<close>

theorem img_transpose_ignores_stride:
  "pixel_at (img_crop \<lparr>width = 2, height = 2, stride = 6, owner = True, alloc_size = 48,
                       pixels = Some [0, 1, 2, 3, 4, 5, 6, 7, 8, 9, 10, 11]\<rparr> 1 2 0 0) 0 1 0
     = Some 6
   \<and> map_option (\<lambda>r. (width r, height r, pixel_at r 1 0 0, map_option (take 6) (pixels r)))
       (img_transpose
          (img_crop \<lparr>width = 2, height = 2, stride = 6, owner = True, alloc_size = 48,
                     pixels = Some [0, 1, 2, 3, 4, 5, 6, 7, 8, 9, 10, 11]\<rparr> 1 2 0 0)
          img_blank)
     = Some (2, 1, Some 3, Some [0, 1, 2, 3, 4, 5])"
  by code_simp

section \<open>Decoding a raw bitmap\<close>

lemma rgb_offset_less:
  "c < 3 \<Longrightarrow> pixel_format_rgb_offset fm ! c < pixel_format_size fm"
  by (cases fm; cases c rule: nat.exhaust [case_product nat.exhaust [case_product nat.exhaust]])
     (simp_all add: nth_Cons')

lemma pixel_format_size_range: "3 \<le> pixel_format_size fm \<and> pixel_format_size fm \<le> 4"
  by (cases fm) simp_all

text \<open>
  What the routine stores, for each of the six layouts: the decoded byte
  \<open>k * pixel_size + rgb_offset[c]\<close> at the position \<open>k * pixel_size + c\<close>. For the
  layouts RGB and BGR, with \<open>pixel_size = 3\<close>, that is the position \<open>3 * k + c\<close>.
\<close>

lemma img_gamma_decode_bitmap_cells:
  fixes lut :: "real list"
  assumes fmt: "fmt_width fmt = int W" "fmt_height fmt = int H"
    and ps: "ps = pixel_format_size (fmt_format fmt)"
    and off: "off = pixel_format_rgb_offset (fmt_format fmt)"
    and blen: "ps * (W * H) \<le> length bitmap"
    and lut: "length lut = 256"
  shows "\<exists>r rp. img_gamma_decode_bitmap lut im0 bitmap fmt fast = Some r
           \<and> width r = int W \<and> height r = int H \<and> stride r = 3 * int W
           \<and> pixels r = Some rp
           \<and> (\<forall>k c. k < W * H \<and> c < 3
                \<longrightarrow> rp ! (ps * k + c)
                    = (if fast then gamma_decode_fast (bitmap ! (ps * k + off ! c))
                       else lut ! unat (bitmap ! (ps * k + off ! c))))"
proof -
  define im where "im = img_init im0 (int W) (int H)"
  define dec where "dec b = (if fast then gamma_decode_fast b else lut ! unat b)" for b
  have ps34: "3 \<le> ps" "ps \<le> 4"
    using pixel_format_size_range [of "fmt_format fmt"] ps by simp_all
  have okb: "img_ok (im0\<lparr>pixels := None\<rparr>)"
    by (simp add: img_ok_def)
  obtain px where px: "pixels im = Some px" and plen: "36 * (W * H) \<le> length px"
  proof -
    have "12 * int W * int H = int (12 * W * H)"
      by simp
    then have "nat (12 * int W * int H) = 12 * W * H"
      by (simp only: nat_int)
    then have "pixels im = Some (replicate (3 * (12 * W * H)) 0)"
      by (simp add: im_def img_init_def img_set_size_def Let_def)
    then show ?thesis
      using that by simp
  qed
  have imf: "width im = int W" "height im = int H" "stride im = 3 * int W"
    by (simp_all add: im_def img_init_def)
  have cnt: "nat (int ps * int W * int H) div ps = W * H"
  proof -
    have "int ps * int W * int H = int (ps * (W * H))"
      by simp
    then have "nat (int ps * int W * int H) = ps * (W * H)"
      by (simp only: nat_int)
    then show ?thesis
      using ps34 by simp
  qed
  let ?inner = "\<lambda>i. for_each [0..<3]
                  (\<lambda>(c::nat) px.
                     case rd bitmap (i + int (off ! c)) of
                       None \<Rightarrow> None
                     | Some b \<Rightarrow>
                         if fast then wr px (i + int c) (gamma_decode_fast b)
                         else (case rd lut (int (unat b)) of
                                 None \<Rightarrow> None
                               | Some v \<Rightarrow> wr px (i + int c) v))"
  define I where "I k d \<longleftrightarrow> length d = length px
      \<and> (\<forall>k' c. k' < k \<and> c < 3 \<longrightarrow> d ! (ps * k' + c) = dec (bitmap ! (ps * k' + off ! c)))"
    for k d
  have "\<exists>d'. for_each [0..<W * H] (\<lambda>k. ?inner (int (k * ps))) px = Some d' \<and> I (W * H) d'"
  proof (rule for_each_upt_rule [where I = I])
    show "I 0 px"
      by (simp add: I_def)
  next
    fix k d assume k: "k < W * H" and Ik: "I k d"
    have ld: "length d = length px"
      using Ik by (simp add: I_def)
    have "ps * Suc k \<le> ps * (W * H)"
      using k by (intro mult_le_mono2) simp
    then have kb: "ps * k + ps \<le> ps * (W * H)"
      by simp
    have "ps * (W * H) \<le> 4 * (W * H)"
      using ps34 by simp
    then have kl: "ps * k + 3 \<le> length d"
      using kb ps34 plen ld by linarith
    have "\<exists>d'. ?inner (int (k * ps)) d = Some d' \<and> length d' = length d
           \<and> (\<forall>c. c < 3 \<longrightarrow> d' ! (ps * k + c) = dec (bitmap ! (ps * k + off ! c)))
           \<and> (\<forall>j. j < ps * k \<or> ps * k + 3 \<le> j \<longrightarrow> d' ! j = d ! j)"
    proof (rule for_each_chan [OF _ kl])
      fix c :: nat and d' :: "real list" assume c: "c < 3"
      have "off ! c < ps"
        using rgb_offset_less [OF c] ps off by simp
      then have "ps * k + off ! c < length bitmap"
        using kb blen by simp
      then have r: "rd bitmap (int (ps * k + off ! c)) = Some (bitmap ! (ps * k + off ! c))"
        by (simp only: rd_int if_True)
      have "unat (bitmap ! (ps * k + off ! c)) < length lut"
        using unat8_less lut by simp
      then have l: "rd lut (int (unat (bitmap ! (ps * k + off ! c))))
          = Some (lut ! unat (bitmap ! (ps * k + off ! c)))"
        by (simp only: rd_int if_True)
      have e1: "int (k * ps) + int (off ! c) = int (ps * k + off ! c)"
        by (simp add: mult.commute)
      have e2: "int (k * ps) + int c = int (ps * k + c)"
        by (simp add: mult.commute)
      show "(case rd bitmap (int (k * ps) + int (off ! c)) of
               None \<Rightarrow> None
             | Some b \<Rightarrow>
                 if fast then wr d' (int (k * ps) + int c) (gamma_decode_fast b)
                 else (case rd lut (int (unat b)) of
                         None \<Rightarrow> None
                       | Some v \<Rightarrow> wr d' (int (k * ps) + int c) v))
            = wr d' (int (ps * k + c)) (dec (bitmap ! (ps * k + off ! c)))"
        by (cases fast) (simp_all only: e1 e2 r l option.case dec_def if_True if_False)
    qed
    then obtain d' where d': "?inner (int (k * ps)) d = Some d'" "length d' = length d"
      and v: "\<forall>c. c < 3 \<longrightarrow> d' ! (ps * k + c) = dec (bitmap ! (ps * k + off ! c))"
      and fr: "\<forall>j. j < ps * k \<or> ps * k + 3 \<le> j \<longrightarrow> d' ! j = d ! j"
      by blast
    have "I (Suc k) d'"
      unfolding I_def
    proof (intro conjI allI impI)
      show "length d' = length px"
        using d' ld by simp
    next
      fix k' c :: nat assume a: "k' < Suc k \<and> c < 3"
      show "d' ! (ps * k' + c) = dec (bitmap ! (ps * k' + off ! c))"
      proof (cases "k' = k")
        case True
        then show ?thesis using v a by simp
      next
        case False
        then have lt: "k' < k" using a by simp
        then have "ps * Suc k' \<le> ps * k"
          by (intro mult_le_mono2) simp
        then have "ps * k' + c < ps * k"
          using a ps34 by simp
        then have "d' ! (ps * k' + c) = d ! (ps * k' + c)"
          using fr by blast
        then show ?thesis
          using Ik lt a by (simp add: I_def)
      qed
    qed
    then show "\<exists>s'. ?inner (int (k * ps)) d = Some s' \<and> I (Suc k) s'"
      using d' by blast
  qed
  then obtain px' where loops: "for_each (map (\<lambda>k. int (k * ps)) [0..<W * H]) ?inner px = Some px'"
    and IW: "I (W * H) px'"
    by (auto simp only: for_each_map)
  have res: "img_gamma_decode_bitmap lut im0 bitmap fmt fast = Some (im\<lparr>pixels := Some px'\<rparr>)"
    by (simp only: img_gamma_decode_bitmap_def Let_def fmt im_def [symmetric] ps [symmetric]
        off [symmetric] px cnt option.case loops option.map)
  show ?thesis
    using res imf IW by (simp add: I_def dec_def)
qed

text \<open>
  C6. \<open>img_gamma_decode_bitmap\<close> is claimed to store the decoded byte
  \<open>k * pixel_size + rgb_offset[c]\<close> at the position \<open>3 * k + c\<close> for each of the six
  layouts. On the code, for the RGBA bitmap of the two pixels (10, 20, 30) and
  (40, 50, 60), the green and blue channels of the second pixel (positions 4 and 5) hold
  the decoded red and green bytes 40 and 50, where the claim has the bytes 50 and 60: the
  destination is indexed with the byte counter \<open>i\<close>, which advances by \<open>pixel_size = 4\<close>.
  (The table is the one of the fast mode, which \<open>main\<close> leaves at its initial zeros.)
\<close>

theorem img_gamma_decode_bitmap_rgba_shifted:
  "map_option (\<lambda>r. (width r, height r, stride r, pixel_at r 1 0 1, pixel_at r 1 0 2))
     (img_gamma_decode_bitmap (replicate 256 0) img_blank
        [10, 20, 30, 255, 40, 50, 60, 255]
        \<lparr>fmt_format = FORMAT_RGBA, fmt_width = 2, fmt_height = 1\<rparr> True)
     = Some (2, 1, 6, Some (gamma_decode_fast 40), Some (gamma_decode_fast 50))
   \<and> gamma_decode_fast 40 < gamma_decode_fast 50
   \<and> gamma_decode_fast 50 < gamma_decode_fast 60"
  by code_simp

section \<open>The moving average on rows that hold the first window\<close>

text \<open>Sums of the clamped window: the first one, and the step from one to the next.\<close>

lemma sum_upto_const:
  fixes v :: real
  assumes "i \<le> j + 1"
  shows "sum_list (map (\<lambda>k. v) [i..j]) = real_of_int (j - i + 1) * v"
proof -
  have "sum_list (map (\<lambda>k. v) [i..j]) = real (length [i..j]) * v"
    by (simp add: sum_list_triv)
  also have "real (length [i..j]) = real_of_int (j - i + 1)"
    using assms by simp
  finally show ?thesis .
qed

lemma clamped_sum_first:
  fixes g :: "int \<Rightarrow> real"
  assumes p: "0 \<le> p" "p \<le> W - 1"
  shows "sum_list (map (\<lambda>k. g (clamp k 0 (W - 1))) [0 - p..0 + p])
           = real_of_int (p + 1) * g 0 + sum_list (map g [1..p])"
proof -
  let ?G = "\<lambda>k. g (clamp k 0 (W - 1))"
  have split: "[- p..p] = [- p..0] @ [0 + 1..p]"
    using p by (intro upto_split2) simp_all
  have "map ?G [- p..0] = map (\<lambda>k. g 0) [- p..0]"
    using p by (intro map_cong) (auto simp: clamp_def)
  then have "sum_list (map ?G [- p..0]) = sum_list (map (\<lambda>k. g 0) [- p..0])"
    by (rule arg_cong)
  also have "\<dots> = real_of_int (0 - (- p) + 1) * g 0"
    using p by (intro sum_upto_const) simp
  finally have a: "sum_list (map ?G [- p..0]) = real_of_int (p + 1) * g 0"
    by simp
  have "map ?G [1..p] = map g [1..p]"
    using p by (intro map_cong) (auto simp: clamp_def)
  then have b: "sum_list (map ?G [1..p]) = sum_list (map g [1..p])"
    by (rule arg_cong)
  have "sum_list (map ?G [- p..p]) = sum_list (map ?G [- p..0]) + sum_list (map ?G [1..p])"
    by (simp add: split)
  then show ?thesis
    by (simp only: a b) simp
qed

lemma clamped_sum_step:
  fixes g :: "int \<Rightarrow> real"
  assumes p: "0 \<le> p" and x: "1 \<le> x" "x \<le> W - 1"
  shows "sum_list (map (\<lambda>k. g (clamp k 0 (W - 1))) [x - p..x + p])
           = sum_list (map (\<lambda>k. g (clamp k 0 (W - 1))) [x - 1 - p..x - 1 + p])
             + g (MIN_macro (x + p) (W - 1)) - g (MAX_macro (x - (p + 1)) 0)"
proof -
  let ?G = "\<lambda>k. g (clamp k 0 (W - 1))"
  let ?T = "\<lambda>i j. sum_list (map ?G [i..j])"
  have "[x - p - 1..x + p] = (x - p - 1) # [x - p - 1 + 1..x + p]"
    using p by (intro upto_rec1) simp
  then have "?T (x - p - 1) (x + p) = ?G (x - p - 1) + ?T (x - p - 1 + 1) (x + p)"
    by simp
  then have a: "?T (x - p - 1) (x + p) = ?G (x - p - 1) + ?T (x - p) (x + p)"
    by simp
  have "[x - p - 1..x + p] = [x - p - 1..x + p - 1] @ [x + p]"
    using p by (intro upto_rec2) simp
  then have b: "?T (x - p - 1) (x + p) = ?T (x - p - 1) (x + p - 1) + ?G (x + p)"
    by simp
  have e1: "x - 1 - p = x - p - 1" and e2: "x - 1 + p = x + p - 1"
    by simp_all
  have hi: "clamp (x + p) 0 (W - 1) = MIN_macro (x + p) (W - 1)"
    using p x by (auto simp: clamp_def MIN_macro_def)
  have lo: "clamp (x - p - 1) 0 (W - 1) = MAX_macro (x - (p + 1)) 0"
    using p x by (auto simp: clamp_def MAX_macro_def)
  have "?T (x - p) (x + p) = ?T (x - p - 1) (x + p - 1) + ?G (x + p) - ?G (x - p - 1)"
    using a b by linarith
  then show ?thesis
    by (simp only: e1 e2 hi lo)
qed

lemma box_clamped_first:
  fixes g :: "int \<Rightarrow> real"
  assumes "0 \<le> (n - 1) div 2" "(n - 1) div 2 \<le> W - 1"
  shows "box_clamped g W n 0
           = 1 / real_of_int n
             * (real_of_int ((n - 1) div 2 + 1) * g 0 + sum_list (map g [1..(n - 1) div 2]))"
  unfolding box_clamped_def Let_def by (simp only: clamped_sum_first [OF assms])

lemma box_clamped_step:
  fixes g :: "int \<Rightarrow> real"
  assumes "0 \<le> (n - 1) div 2" "1 \<le> x" "x \<le> W - 1"
  shows "box_clamped g W n x
           = box_clamped g W n (x - 1)
             + 1 / real_of_int n * g (MIN_macro (x + (n - 1) div 2) (W - 1))
             - 1 / real_of_int n * g (MAX_macro (x - ((n - 1) div 2 + 1)) 0)"
  unfolding box_clamped_def Let_def
  by (simp only: clamped_sum_step [OF assms] distrib_left right_diff_distrib)


text \<open>
  One row: when the samples \<open>1 .. q - 1\<close> exist (\<open>q \<le> W\<close>), the row computation
  only reads the source row at indices \<open>0 .. W - 1\<close>, writes the \<open>W\<close> pixels of its
  destination row and nothing else, and each written value is the clamped box convolution.
\<close>

lemma mov_avg_row_box:
  fixes f :: "int \<Rightarrow> nat \<Rightarrow> real" and dp0 :: "real list"
  assumes row: "\<And>x c. 0 \<le> x \<Longrightarrow> x < int W \<Longrightarrow> c < 3 \<Longrightarrow> src_row x c = Some (f x c)"
    and n: "1 \<le> n" and qW: "(n - 1) div 2 + 1 \<le> int W"
    and len: "D + 3 * W \<le> length dp0"
  shows "\<exists>dp'. mov_avg_row src_row (int D) (int W) n dp0 = Some dp'
           \<and> length dp' = length dp0
           \<and> (\<forall>j. j < D \<or> D + 3 * W \<le> j \<longrightarrow> dp' ! j = dp0 ! j)
           \<and> (\<forall>x c. x < W \<and> c < 3
                \<longrightarrow> dp' ! (D + 3 * x + c) = box_clamped (\<lambda>k. f k c) (int W) n (int x))"
proof -
  define a where "a = 1 / real_of_int n"
  define p where "p = (n - 1) div 2"
  define q where "q = p + 1"
  define bx where "bx x c = box_clamped (\<lambda>k. f k c) (int W) n x" for x c
  have p0: "0 \<le> p"
    using n by (simp add: p_def)
  have cd: "c_div (n - 1) 2 = p"
    using n by (simp add: c_div_def p_def)
  have q1: "1 \<le> q" and qW': "q \<le> int W" and pW: "p \<le> int W - 1"
    using p0 qW by (simp_all add: q_def p_def)
  have W1: "1 \<le> W"
    using q1 qW' by simp
  have L3: "D + 3 \<le> length dp0"
    using len W1 by simp
  let ?A = "\<lambda>(c::nat) dp. case src_row 0 c of
                      None \<Rightarrow> None
                    | Some v \<Rightarrow> wr dp (int D + int c) (v * real_of_int q * a)"
  let ?B = "\<lambda>x. for_each [0..<3]
                 (\<lambda>(c::nat) dp. case (rd dp (int D + int c), src_row x c) of
                            (Some d, Some v) \<Rightarrow> wr dp (int D + int c) (d + a * v)
                          | _ \<Rightarrow> None)"
  let ?C = "\<lambda>x. for_each [0..<3]
                 (\<lambda>(c::nat) dp. case (rd dp (int D + 3 * (x - 1) + int c),
                                src_row (MIN_macro (x + p) (int W - 1)) c,
                                src_row (MAX_macro (x - q) 0) c) of
                            (Some d, Some u, Some v) \<Rightarrow>
                              wr dp (int D + 3 * x + int c) (d + a * u - a * v)
                          | _ \<Rightarrow> None)"
  have unf: "mov_avg_row src_row (int D) (int W) n dp0
      = (case for_each [0..<3] ?A dp0 of
           None \<Rightarrow> None
         | Some dp1 \<Rightarrow>
            (case for_each (map int [1..<nat q]) ?B dp1 of
               None \<Rightarrow> None
             | Some dp2 \<Rightarrow> for_each (map int [1..<nat (int W)]) ?C dp2))"
    by (simp only: mov_avg_row_def Let_def cd a_def q_def)
  have eD: "int D + int c = int (D + c)" for c :: nat
    by simp
  \<comment> \<open>the first pixel, from the first sample\<close>
  have "\<exists>d'. for_each [0..<3] ?A dp0 = Some d' \<and> length d' = length dp0
           \<and> (\<forall>c. c < 3 \<longrightarrow> d' ! (D + c) = f 0 c * real_of_int q * a)
           \<and> (\<forall>j. j < D \<or> D + 3 \<le> j \<longrightarrow> d' ! j = dp0 ! j)"
  proof (rule for_each_chan [OF _ L3])
    fix c :: nat and d :: "real list" assume "c < 3"
    then have "src_row 0 c = Some (f 0 c)"
      using W1 by (intro row) simp_all
    then show "?A c d = wr d (int (D + c)) (f 0 c * real_of_int q * a)"
      by (simp only: eD option.case)
  qed
  then obtain dpA where A: "for_each [0..<3] ?A dp0 = Some dpA"
    and lA: "length dpA = length dp0"
    and vA: "\<forall>c. c < 3 \<longrightarrow> dpA ! (D + c) = f 0 c * real_of_int q * a"
    and fA: "\<forall>j. j < D \<or> D + 3 \<le> j \<longrightarrow> dpA ! j = dp0 ! j"
    by blast
  \<comment> \<open>the first pixel, the samples 1 .. q - 1\<close>
  define IB where "IB i d \<longleftrightarrow> length d = length dp0
      \<and> (\<forall>c. c < 3 \<longrightarrow> d ! (D + c)
            = f 0 c * real_of_int q * a + a * sum_list (map (\<lambda>k. f k c) [1..int i - 1]))
      \<and> (\<forall>j. j < D \<or> D + 3 \<le> j \<longrightarrow> d ! j = dp0 ! j)" for i d
  have "\<exists>d'. for_each [1..<nat q] (\<lambda>i. ?B (int i)) dpA = Some d' \<and> IB (nat q) d'"
  proof (rule for_each_from_rule [where I = IB])
    show "IB 1 dpA"
      using lA vA fA by (simp add: IB_def)
  next
    show "1 \<le> nat q"
      using q1 by simp
  next
    fix i d assume i: "1 \<le> i" "i < nat q" and I: "IB i d"
    have ld: "length d = length dp0"
      using I by (simp add: IB_def)
    have iW: "0 \<le> int i" "int i < int W"
      using i qW' by simp_all
    have "\<exists>d'. ?B (int i) d = Some d' \<and> length d' = length d
           \<and> (\<forall>c. c < 3 \<longrightarrow> d' ! (D + c) = d ! (D + c) + a * f (int i) c)
           \<and> (\<forall>j. j < D \<or> D + 3 \<le> j \<longrightarrow> d' ! j = d ! j)"
    proof (rule for_each_chan)
      show "D + 3 \<le> length d"
        using L3 ld by simp
    next
      fix c :: nat and d' :: "real list" assume c: "c < 3" and l': "length d' = length d"
        and same: "\<forall>j. j < D \<or> D + c \<le> j \<longrightarrow> d' ! j = d ! j"
      have "D + c < length d'"
        using c L3 ld l' by simp
      then have r: "rd d' (int (D + c)) = Some (d ! (D + c))"
        using same by (simp only: rd_int) simp
      have s: "src_row (int i) c = Some (f (int i) c)"
        by (rule row [OF iW c])
      show "(case (rd d' (int D + int c), src_row (int i) c) of
               (Some d, Some v) \<Rightarrow> wr d' (int D + int c) (d + a * v)
             | _ \<Rightarrow> None)
            = wr d' (int (D + c)) (d ! (D + c) + a * f (int i) c)"
        by (simp only: eD r s prod.case option.case)
    qed
    then obtain d' where d': "?B (int i) d = Some d'" "length d' = length d"
      and v': "\<forall>c. c < 3 \<longrightarrow> d' ! (D + c) = d ! (D + c) + a * f (int i) c"
      and f': "\<forall>j. j < D \<or> D + 3 \<le> j \<longrightarrow> d' ! j = d ! j"
      by blast
    have up: "[1..int i] = [1..int i - 1] @ [int i]"
      using i by (intro upto_rec2) simp
    have "IB (Suc i) d'"
      unfolding IB_def
    proof (intro conjI allI impI)
      show "length d' = length dp0"
        using d' ld by simp
    next
      fix c :: nat assume c: "c < 3"
      have "d' ! (D + c) = d ! (D + c) + a * f (int i) c"
        using v' c by simp
      also have "d ! (D + c)
          = f 0 c * real_of_int q * a + a * sum_list (map (\<lambda>k. f k c) [1..int i - 1])"
        using I c by (simp add: IB_def)
      finally show "d' ! (D + c)
          = f 0 c * real_of_int q * a + a * sum_list (map (\<lambda>k. f k c) [1..int (Suc i) - 1])"
        by (simp add: up algebra_simps)
    next
      fix j assume "j < D \<or> D + 3 \<le> j"
      then show "d' ! j = dp0 ! j"
        using f' I by (auto simp: IB_def)
    qed
    then show "\<exists>s'. ?B (int i) d = Some s' \<and> IB (Suc i) s'"
      using d' by blast
  qed
  then obtain dpB where B: "for_each (map int [1..<nat q]) ?B dpA = Some dpB"
    and iB: "IB (nat q) dpB"
    by (auto simp only: for_each_map)
  have lB: "length dpB = length dp0"
    using iB by (simp add: IB_def)
  have fB: "\<forall>j. j < D \<or> D + 3 \<le> j \<longrightarrow> dpB ! j = dp0 ! j"
    using iB by (simp add: IB_def)
  have vB: "dpB ! (D + c) = bx 0 c" if c: "c < 3" for c
  proof -
    have "int (nat q) - 1 = p"
      using q1 by (simp add: q_def)
    then have "dpB ! (D + c)
        = f 0 c * real_of_int q * a + a * sum_list (map (\<lambda>k. f k c) [1..p])"
      using iB c by (simp add: IB_def)
    moreover have "bx 0 c = 1 / real_of_int n
        * (real_of_int (p + 1) * f 0 c + sum_list (map (\<lambda>k. f k c) [1..p]))"
      unfolding bx_def p_def
      by (rule box_clamped_first) (use p0 pW in \<open>simp_all add: p_def\<close>)
    ultimately show ?thesis
      by (simp add: a_def q_def algebra_simps)
  qed
  \<comment> \<open>the pixels 1 .. W - 1\<close>
  define IC where "IC i d \<longleftrightarrow> length d = length dp0
      \<and> (\<forall>x c. x < i \<and> c < 3 \<longrightarrow> d ! (D + 3 * x + c) = bx (int x) c)
      \<and> (\<forall>j. j < D \<or> D + 3 * W \<le> j \<longrightarrow> d ! j = dp0 ! j)" for i d
  have "\<exists>d'. for_each [1..<W] (\<lambda>i. ?C (int i)) dpB = Some d' \<and> IC W d'"
  proof (rule for_each_from_rule [where I = IC])
    show "IC 1 dpB"
      using lB vB fB W1 by (simp add: IC_def)
  next
    show "1 \<le> W" by (rule W1)
  next
    fix i d assume i: "1 \<le> i" "i < W" and I: "IC i d"
    have ld: "length d = length dp0"
      using I by (simp add: IC_def)
    define u where "u = MIN_macro (int i + p) (int W - 1)"
    define v where "v = MAX_macro (int i - q) 0"
    have ur: "0 \<le> u" "u < int W"
      using i p0 by (simp_all add: u_def MIN_macro_def)
    have vr: "0 \<le> v" "v < int W"
      using i q1 by (simp_all add: v_def MAX_macro_def)
    have e1: "int D + 3 * (int i - 1) + int c = int (D + 3 * (i - 1) + c)" for c :: nat
      using i by (simp add: of_nat_diff)
    have e2: "int D + 3 * int i + int c = int (D + 3 * i + c)" for c :: nat
      by simp
    have "\<exists>d'. ?C (int i) d = Some d' \<and> length d' = length d
           \<and> (\<forall>c. c < 3 \<longrightarrow> d' ! (D + 3 * i + c)
                 = d ! (D + 3 * (i - 1) + c) + a * f u c - a * f v c)
           \<and> (\<forall>j. j < D + 3 * i \<or> D + 3 * i + 3 \<le> j \<longrightarrow> d' ! j = d ! j)"
    proof (rule for_each_chan)
      show "D + 3 * i + 3 \<le> length d"
        using len ld i by simp
    next
      fix c :: nat and d' :: "real list" assume c: "c < 3" and l': "length d' = length d"
        and same: "\<forall>j. j < D + 3 * i \<or> D + 3 * i + c \<le> j \<longrightarrow> d' ! j = d ! j"
      have "D + 3 * (i - 1) + c < length d'"
        using c len ld l' i by simp
      moreover have "d' ! (D + 3 * (i - 1) + c) = d ! (D + 3 * (i - 1) + c)"
        using same c i by simp
      ultimately have r: "rd d' (int (D + 3 * (i - 1) + c)) = Some (d ! (D + 3 * (i - 1) + c))"
        by (simp only: rd_int) simp
      have su: "src_row u c = Some (f u c)"
        by (rule row [OF ur c])
      have sv: "src_row v c = Some (f v c)"
        by (rule row [OF vr c])
      show "(case (rd d' (int D + 3 * (int i - 1) + int c),
                   src_row (MIN_macro (int i + p) (int W - 1)) c,
                   src_row (MAX_macro (int i - q) 0) c) of
               (Some d, Some u, Some v) \<Rightarrow> wr d' (int D + 3 * int i + int c) (d + a * u - a * v)
             | _ \<Rightarrow> None)
            = wr d' (int (D + 3 * i + c)) (d ! (D + 3 * (i - 1) + c) + a * f u c - a * f v c)"
        by (simp only: e1 e2 r su sv u_def [symmetric] v_def [symmetric] prod.case option.case)
    qed
    then obtain d' where d': "?C (int i) d = Some d'" "length d' = length d"
      and v': "\<forall>c. c < 3 \<longrightarrow> d' ! (D + 3 * i + c)
                 = d ! (D + 3 * (i - 1) + c) + a * f u c - a * f v c"
      and f': "\<forall>j. j < D + 3 * i \<or> D + 3 * i + 3 \<le> j \<longrightarrow> d' ! j = d ! j"
      by blast
    have "IC (Suc i) d'"
      unfolding IC_def
    proof (intro conjI allI impI)
      show "length d' = length dp0"
        using d' ld by simp
    next
      fix x c :: nat assume xc: "x < Suc i \<and> c < 3"
      show "d' ! (D + 3 * x + c) = bx (int x) c"
      proof (cases "x = i")
        case True
        have "d' ! (D + 3 * i + c) = d ! (D + 3 * (i - 1) + c) + a * f u c - a * f v c"
          using v' xc by simp
        also have "d ! (D + 3 * (i - 1) + c) = bx (int (i - 1)) c"
          using I xc i by (simp add: IC_def)
        also have "int (i - 1) = int i - 1"
          using i by simp
        finally have "d' ! (D + 3 * i + c) = bx (int i - 1) c + a * f u c - a * f v c" .
        moreover have "bx (int i) c = bx (int i - 1) c
            + 1 / real_of_int n * f (MIN_macro (int i + (n - 1) div 2) (int W - 1)) c
            - 1 / real_of_int n * f (MAX_macro (int i - ((n - 1) div 2 + 1)) 0) c"
          unfolding bx_def
          by (rule box_clamped_step) (use p0 i in \<open>simp_all add: p_def\<close>)
        ultimately show ?thesis
          by (simp add: True a_def u_def v_def q_def p_def)
      next
        case False
        then have "x < i" using xc by simp
        then have "D + 3 * x + c < D + 3 * i"
          using xc by simp
        then have "d' ! (D + 3 * x + c) = d ! (D + 3 * x + c)"
          using f' by simp
        then show ?thesis
          using I \<open>x < i\<close> xc by (simp add: IC_def)
      qed
    next
      fix j assume j: "j < D \<or> D + 3 * W \<le> j"
      then have "j < D + 3 * i \<or> D + 3 * i + 3 \<le> j"
        using i by auto
      then have "d' ! j = d ! j"
        using f' by blast
      then show "d' ! j = dp0 ! j"
        using I j by (auto simp: IC_def)
    qed
    then show "\<exists>s'. ?C (int i) d = Some s' \<and> IC (Suc i) s'"
      using d' by blast
  qed
  then obtain dpC where C: "for_each (map int [1..<nat (int W)]) ?C dpB = Some dpC"
    and iC: "IC W dpC"
    by (auto simp only: for_each_map nat_int)
  have "mov_avg_row src_row (int D) (int W) n dp0 = Some dpC"
    by (simp only: unf A B C option.case)
  then show ?thesis
    using iC by (auto simp: IC_def bx_def)
qed

lemma row_index_less:
  fixes S W H x y c :: nat
  assumes "3 * W \<le> S" "x < W" "y < H" "c < 3"
  shows "S * y + 3 * x + c < S * (H - 1) + 3 * W"
proof -
  have "y \<le> H - 1"
    using assms by simp
  then have "S * y \<le> S * (H - 1)"
    by (rule mult_le_mono2)
  moreover have "3 * x + c < 3 * W"
    using assms by simp
  ultimately show ?thesis
    by linarith
qed

text \<open>
  The whole image: for a source with a stride of at least 3 times its width (a cropped
  view included) and every kernel size \<open>n \<ge> 1\<close> with \<open>(n - 1) / 2 + 1 \<le> W\<close>,
  \<open>img_mov_avg_h\<close> succeeds and every channel of every result pixel is the clamped box
  convolution of the source row, in exact real arithmetic.
\<close>

lemma img_mov_avg_h_box:
  assumes src: "width src = int W" "height src = int H" "stride src = int S"
      "pixels src = Some sp"
    and S: "3 * W \<le> S" and len: "S * (H - 1) + 3 * W \<le> length sp"
    and ok: "img_ok dst0"
    and n: "1 \<le> n" and qW: "(n - 1) div 2 + 1 \<le> int W"
  shows "\<exists>r rp. img_mov_avg_h src dst0 n = Some r
           \<and> width r = int W \<and> height r = int H \<and> stride r = 3 * int W
           \<and> pixels r = Some rp \<and> 3 * W * H \<le> length rp \<and> img_ok r
           \<and> (\<forall>x y c. x < W \<and> y < H \<and> c < 3
                \<longrightarrow> rp ! (3 * W * y + 3 * x + c)
                    = box_clamped (\<lambda>k. sp ! nat (int S * int y + 3 * k + int c))
                        (int W) n (int x))"
proof -
  define dst where "dst = img_set_size dst0 (int W) (int H)"
  obtain dp where dp: "pixels dst = Some dp" and dlen: "3 * W * H \<le> length dp"
    and dok: "img_ok dst"
    using img_set_size_pixels [OF ok, of W H] unfolding dst_def by blast
  define f where "f y k c = sp ! nat (int S * int y + 3 * k + int c)" for y :: nat and k c
  define bx where "bx y x c = box_clamped (\<lambda>k. f y k c) (int W) n (int x)" for y x c
  let ?row = "\<lambda>y. mov_avg_row (\<lambda>x c. rd sp (int S * int y + 3 * x + int c))
                    (3 * int W * int y) (int W) n"
  define I where "I y d \<longleftrightarrow> length d = length dp
      \<and> (\<forall>y' x c. y' < y \<and> x < W \<and> c < 3 \<longrightarrow> d ! (3 * W * y' + 3 * x + c) = bx y' x c)"
    for y d
  have rows: "rd sp (int S * int y + 3 * x + int c) = Some (f y x c)"
    if "y < H" "0 \<le> x" "x < int W" "c < 3" for y x c
  proof -
    define x' where "x' = nat x"
    have x': "x = int x'" "x' < W"
      using that by (auto simp: x'_def)
    have e: "int S * int y + 3 * x + int c = int (S * y + 3 * x' + c)"
      by (simp add: x')
    have "S * y + 3 * x' + c < length sp"
      using row_index_less [OF S x'(2) that(1) that(4)] len by simp
    then show ?thesis
      unfolding f_def e by (simp only: rd_int nat_int if_True)
  qed
  have "\<exists>d'. for_each [0..<H] ?row dp = Some d' \<and> I H d'"
  proof (rule for_each_upt_rule [where I = I])
    show "I 0 dp"
      by (simp add: I_def)
  next
    fix y d assume y: "y < H" and Iy: "I y d"
    have ld: "length d = length dp"
      using Iy by (simp add: I_def)
    have "W * Suc y \<le> W * H"
      using y by (intro mult_le_mono2) simp
    then have l: "3 * W * y + 3 * W \<le> length d"
      using dlen ld by simp
    have e: "3 * int W * int y = int (3 * W * y)"
      by simp
    have "\<exists>d'. mov_avg_row (\<lambda>x c. rd sp (int S * int y + 3 * x + int c))
                 (int (3 * W * y)) (int W) n d = Some d'
           \<and> length d' = length d
           \<and> (\<forall>j. j < 3 * W * y \<or> 3 * W * y + 3 * W \<le> j \<longrightarrow> d' ! j = d ! j)
           \<and> (\<forall>x c. x < W \<and> c < 3
                \<longrightarrow> d' ! (3 * W * y + 3 * x + c)
                    = box_clamped (\<lambda>k. f y k c) (int W) n (int x))"
      by (rule mov_avg_row_box [OF rows [OF y] n qW l])
    then obtain d' where d': "?row y d = Some d'" "length d' = length d"
      and fr: "\<forall>j. j < 3 * W * y \<or> 3 * W * y + 3 * W \<le> j \<longrightarrow> d' ! j = d ! j"
      and v: "\<forall>x c. x < W \<and> c < 3 \<longrightarrow> d' ! (3 * W * y + 3 * x + c) = bx y x c"
      unfolding e bx_def by blast
    have "I (Suc y) d'"
      unfolding I_def
    proof (intro conjI allI impI)
      show "length d' = length dp"
        using d' ld by simp
    next
      fix y' x c :: nat assume a: "y' < Suc y \<and> x < W \<and> c < 3"
      show "d' ! (3 * W * y' + 3 * x + c) = bx y' x c"
      proof (cases "y' = y")
        case True
        then show ?thesis using v a by simp
      next
        case False
        then have lt: "y' < y" using a by simp
        then have "W * Suc y' \<le> W * y"
          by (intro mult_le_mono2) simp
        then have "3 * W * y' + 3 * x + c < 3 * W * y"
          using a by simp
        then have "d' ! (3 * W * y' + 3 * x + c) = d ! (3 * W * y' + 3 * x + c)"
          using fr by blast
        then show ?thesis
          using Iy lt a by (simp add: I_def)
      qed
    qed
    then show "\<exists>s'. ?row y d = Some s' \<and> I (Suc y) s'"
      using d' by blast
  qed
  then obtain dp' where loops: "for_each [0..<H] ?row dp = Some dp'" and IH: "I H dp'"
    by blast
  have l': "length dp' = length dp"
    using IH by (simp add: I_def)
  have st: "stride dst = 3 * int W"
    by (simp add: dst_def)
  have res: "img_mov_avg_h src dst0 n = Some (dst\<lparr>pixels := Some dp'\<rparr>)"
    by (simp only: img_mov_avg_h_def Let_def src dst_def [symmetric] st dp nat_int
        prod.case option.case loops option.map)
  have "img_ok (dst\<lparr>pixels := Some dp'\<rparr>)"
    using dok dp l' by (simp add: img_ok_def)
  moreover have "\<forall>x y c. x < W \<and> y < H \<and> c < 3
      \<longrightarrow> dp' ! (3 * W * y + 3 * x + c)
          = box_clamped (\<lambda>k. sp ! nat (int S * int y + 3 * k + int c)) (int W) n (int x)"
    using IH by (simp add: I_def bx_def f_def)
  ultimately show ?thesis
    using res dlen l' by (simp add: dst_def)
qed

lemma mov_avg_row_reads_in_row:
  fixes f :: "int \<Rightarrow> nat \<Rightarrow> real" and dp0 :: "real list"
  assumes "1 \<le> n" "(n - 1) div 2 + 1 \<le> int W" "D + 3 * W \<le> length dp0"
  shows "mov_avg_row (\<lambda>x c. if 0 \<le> x \<and> x < int W then Some (f x c) else None)
           (int D) (int W) n dp0 \<noteq> None"
proof -
  have "\<exists>dp'. mov_avg_row (\<lambda>x c. if 0 \<le> x \<and> x < int W then Some (f x c) else None)
                 (int D) (int W) n dp0 = Some dp'
           \<and> length dp' = length dp0
           \<and> (\<forall>j. j < D \<or> D + 3 * W \<le> j \<longrightarrow> dp' ! j = dp0 ! j)
           \<and> (\<forall>x c. x < W \<and> c < 3
                \<longrightarrow> dp' ! (D + 3 * x + c) = box_clamped (\<lambda>k. f k c) (int W) n (int x))"
    by (rule mov_avg_row_box [OF _ assms]) simp
  then show ?thesis
    by auto
qed

section \<open>The moving average on rows shorter than the kernel\<close>

text \<open>
  C1. \<open>img_mov_avg_h\<close> is claimed to equal the clamped box convolution for every width
  of at least 1 and every odd kernel size. On the code, for the image of width 1 and
  height 2 with the pixels (0, 0, 0) and (3, 3, 3) and the kernel size 3, the first row of
  the result is (1, 1, 1), while the clamped convolution of that row is 0: the loop that
  sums \<open>src_row[1] .. src_row[q - 1]\<close> for the first pixel does not clamp its index to the
  row and takes the value 3 from the next row.
\<close>

theorem img_mov_avg_h_narrow_row:
  "map_option (\<lambda>r. (pixel_at r 0 0 0, pixel_at r 0 0 1, pixel_at r 0 0 2))
     (img_mov_avg_h
        \<lparr>width = 1, height = 2, stride = 3, owner = True, alloc_size = 24,
         pixels = Some ([0, 0, 0, 3, 3, 3] @ replicate 66 0)\<rparr> img_blank 3)
     = Some (Some 1, Some 1, Some 1)
   \<and> box_clamped (\<lambda>x. [0] ! nat x) 1 3 0 = 0"
  by code_simp

text \<open>
  C10. Every source-row index that \<open>img_mov_avg_h\<close> reads is claimed to lie within
  \<open>0 .. w - 1\<close>. On the code, for \<open>w = 1\<close> and \<open>n = 3\<close> (so \<open>q = 2\<close>) the first pixel's
  loop reads \<open>src_row[1]\<close>: the row computation fails on a row that can only be read at
  the index 0, and the whole routine reads outside the storage of an image that holds
  exactly its one pixel.
\<close>

theorem img_mov_avg_h_reads_past_row:
  "mov_avg_row (\<lambda>x c. if 0 \<le> x \<and> x < 1 then Some 5 else None) 0 1 3 [0, 0, 0] = None
   \<and> img_mov_avg_h
       \<lparr>width = 1, height = 1, stride = 3, owner = True, alloc_size = 1,
        pixels = Some [5, 5, 5]\<rparr> img_blank 3 = None"
  by code_simp

end
